theory Spec2Isabelle
  imports Complex_Main "HOL-Library.Char_ord" "HOL-Library.List_Lexorder"
begin

section \<open>tcb-cli: the chapter-selection parser and the download naming rules\<close>

text \<open>
  The program is \<^verbatim>\<open>cmd/tcb-cli/main.go\<close>; two further variants of the same program are
  kept in the repository (an older one without \<^verbatim>\<open>parseRange\<close>, a newer one that can pack a
  chapter into a \<^verbatim>\<open>.cbz\<close> archive). Go strings are byte sequences, modelled as
  \<^typ>\<open>string\<close>.

  What lies outside the program is a parameter of the model, so that every theorem holds
  whatever it is:
  \<^item> \<open>pf\<close> stands for \<^verbatim>\<open>strconv.ParseFloat(s, 64)\<close>, \<open>None\<close> when it returns an error;
  \<^item> \<open>g\<close> stands for \<^verbatim>\<open>strconv.AppendFloat(nil, x, 'g', -1, 64)\<close>, the text that the
    verb \<^verbatim>\<open>%g\<close> pads;
  \<^item> \<open>fails\<close> says which calls of the operating system and of the zip writer fail.
\<close>

subsection \<open>float64\<close>

text \<open>
  The values of a \<^verbatim>\<open>float64\<close>, with the finite ones as the rational numbers they denote.
  The sign of zero is not kept: Go's comparisons and map keys do not distinguish the two
  zeros.
\<close>

datatype float64 = NaN | NegInf | Fin rat | PosInf

type_synonym parser = "string \<Rightarrow> float64 option"

text \<open>The comparison operators of the language: every comparison with NaN is false.\<close>

fun f64_lt :: "float64 \<Rightarrow> float64 \<Rightarrow> bool" where
  "f64_lt NaN y = False"
| "f64_lt x NaN = False"
| "f64_lt x NegInf = False"
| "f64_lt NegInf y = True"
| "f64_lt PosInf y = False"
| "f64_lt (Fin a) PosInf = True"
| "f64_lt (Fin a) (Fin b) = (a < b)"

definition f64_eq :: "float64 \<Rightarrow> float64 \<Rightarrow> bool" where
  "f64_eq x y = (x \<noteq> NaN \<and> x = y)"

definition f64_le :: "float64 \<Rightarrow> float64 \<Rightarrow> bool" where
  "f64_le x y = (f64_lt x y \<or> f64_eq x y)"

definition f64_gt :: "float64 \<Rightarrow> float64 \<Rightarrow> bool" where
  "f64_gt x y = f64_lt y x"

definition f64_ge :: "float64 \<Rightarrow> float64 \<Rightarrow> bool" where
  "f64_ge x y = f64_le y x"

definition isNaN :: "float64 \<Rightarrow> bool" where
  "isNaN x = (\<not> f64_eq x x)"

subsection \<open>sort.Float64s\<close>

text \<open>
  \<^verbatim>\<open>sort.Float64s\<close> sorts by \<^verbatim>\<open>Float64Slice.Less\<close>, which puts NaN before every number.
  Elements that \<open>Less\<close> does not separate are the same value here, so the sorted slice does not
  depend on the algorithm; it is written as an insertion sort.
\<close>

definition Less :: "float64 \<Rightarrow> float64 \<Rightarrow> bool" where
  "Less x y = (f64_lt x y \<or> (isNaN x \<and> \<not> isNaN y))"

fun insertLess :: "float64 \<Rightarrow> float64 list \<Rightarrow> float64 list" where
  "insertLess x [] = [x]"
| "insertLess x (y # ys) = (if Less y x then y # insertLess x ys else x # y # ys)"

fun Float64s :: "float64 list \<Rightarrow> float64 list" where
  "Float64s [] = []"
| "Float64s (x # xs) = insertLess x (Float64s xs)"

subsection \<open>Maps with float64 keys\<close>

text \<open>
  A Go map keyed by \<^verbatim>\<open>float64\<close> compares keys with \<^verbatim>\<open>==\<close>: a NaN key never equals a key
  already present, so storing under NaN always adds an entry and looking NaN up never finds
  one. The entries are kept in the order in which their keys were first stored; Go iterates
  in an unspecified order, which \<open>mapToSlice\<close> sorts away.
\<close>

type_synonym 'v f64map = "(float64 \<times> 'v) list"

fun mapaccess :: "'v f64map \<Rightarrow> float64 \<Rightarrow> 'v option" where
  "mapaccess [] k = None"
| "mapaccess ((k', v) # m) k = (if f64_eq k' k then Some v else mapaccess m k)"

fun mapassign :: "'v f64map \<Rightarrow> float64 \<Rightarrow> 'v \<Rightarrow> 'v f64map" where
  "mapassign [] k v = [(k, v)]"
| "mapassign ((k', v') # m) k v =
     (if f64_eq k' k then (k, v) # m else (k', v') # mapassign m k v)"

subsection \<open>Package strings\<close>

text \<open>\<^verbatim>\<open>strings.Split(s, sep)\<close> for a separator of one byte: always at least one piece.\<close>

fun Split :: "string \<Rightarrow> char \<Rightarrow> string list" where
  "Split [] sep = [[]]"
| "Split (c # cs) sep =
     (if c = sep then [] # Split cs sep
      else (case Split cs sep of [] \<Rightarrow> [[c]] | p # ps \<Rightarrow> (c # p) # ps))"

text \<open>\<^verbatim>\<open>strings.Contains(s, sep)\<close> for a separator of one byte.\<close>

definition Contains :: "string \<Rightarrow> char \<Rightarrow> bool" where
  "Contains s sep = (sep \<in> set s)"

text \<open>
  \<^verbatim>\<open>strings.TrimSpace\<close> removes the leading and trailing runes that \<^verbatim>\<open>unicode.IsSpace\<close>
  accepts. On the bytes of the string these are the six ASCII spaces and the UTF-8 encodings
  of U+0085, U+00A0, U+1680, U+2000 to U+200A, U+2028, U+2029, U+202F, U+205F and U+3000;
  a byte that does not start or end such an encoding stops the trimming.
\<close>

definition spaceRunes :: "string list" where
  "spaceRunes =
     [[CHR 0x09], [CHR 0x0A], [CHR 0x0B], [CHR 0x0C], [CHR 0x0D], [CHR 0x20],
      [CHR 0xC2, CHR 0x85], [CHR 0xC2, CHR 0xA0], [CHR 0xE1, CHR 0x9A, CHR 0x80],
      [CHR 0xE2, CHR 0x80, CHR 0x80], [CHR 0xE2, CHR 0x80, CHR 0x81],
      [CHR 0xE2, CHR 0x80, CHR 0x82], [CHR 0xE2, CHR 0x80, CHR 0x83],
      [CHR 0xE2, CHR 0x80, CHR 0x84], [CHR 0xE2, CHR 0x80, CHR 0x85],
      [CHR 0xE2, CHR 0x80, CHR 0x86], [CHR 0xE2, CHR 0x80, CHR 0x87],
      [CHR 0xE2, CHR 0x80, CHR 0x88], [CHR 0xE2, CHR 0x80, CHR 0x89],
      [CHR 0xE2, CHR 0x80, CHR 0x8A], [CHR 0xE2, CHR 0x80, CHR 0xA8],
      [CHR 0xE2, CHR 0x80, CHR 0xA9], [CHR 0xE2, CHR 0x80, CHR 0xAF],
      [CHR 0xE2, CHR 0x81, CHR 0x9F], [CHR 0xE3, CHR 0x80, CHR 0x80]]"

text \<open>The number of bytes of the space rune that \<open>s\<close> starts with, 0 when there is none.\<close>

fun runeLen :: "string list \<Rightarrow> string \<Rightarrow> nat" where
  "runeLen [] s = 0"
| "runeLen (r # rs) s = (if r \<noteq> [] \<and> take (length r) s = r then length r else runeLen rs s)"

fun trimLeft :: "string list \<Rightarrow> string \<Rightarrow> string" where
  "trimLeft rs [] = []"
| "trimLeft rs (c # cs) =
     (case runeLen rs (c # cs) of
        0 \<Rightarrow> c # cs
      | Suc n \<Rightarrow> trimLeft rs (drop n cs))"

definition TrimSpace :: "string \<Rightarrow> string" where
  "TrimSpace s = rev (trimLeft (map rev spaceRunes) (rev (trimLeft spaceRunes s)))"

subsection \<open>The selection parser\<close>

text \<open>
  The errors that \<open>parseChapterSelection\<close> returns, one constructor for each place that makes
  one, with the strings that the message quotes:
  \<^item> \<open>InvalidRangeFormat\<close>: "invalid range format: part";
  \<^item> \<open>InvalidStart\<close>, \<open>InvalidEnd\<close>: "invalid start of range: s", "invalid end of range: s", a
    bound that is not a number;
  \<^item> \<open>InvalidRange\<close>: "start of range should not be greater than end: s-e";
  \<^item> \<open>NumError\<close>: the \<^verbatim>\<open>*strconv.NumError\<close> of a single-number token, handed on as it is;
  \<^item> \<open>IndexOutOfRange\<close>: the run-time panic of an index expression.

  The archive of a chapter adds \<open>PathError\<close>, the \<^verbatim>\<open>*fs.PathError\<close> of a call on a path, and
  \<open>WriteError\<close>, an error of the zip writer on an entry.
\<close>

datatype error =
    InvalidRangeFormat string
  | InvalidStart string
  | InvalidEnd string
  | InvalidRange string string
  | NumError string
  | IndexOutOfRange
  | PathError string
  | WriteError string

text \<open>\<^verbatim>\<open>parseRange\<close> reads \<^verbatim>\<open>rangeParts[0]\<close> and \<^verbatim>\<open>rangeParts[1]\<close>.\<close>

fun parseRange :: "parser \<Rightarrow> string list \<Rightarrow> error + float64 \<times> float64" where
  "parseRange pf [] = Inl IndexOutOfRange"
| "parseRange pf [p0] =
     (case pf (TrimSpace p0) of
        None \<Rightarrow> Inl (InvalidStart p0)
      | Some start \<Rightarrow> Inl IndexOutOfRange)"
| "parseRange pf (p0 # p1 # ps) =
     (case pf (TrimSpace p0) of
        None \<Rightarrow> Inl (InvalidStart p0)
      | Some start \<Rightarrow>
          (case pf (TrimSpace p1) of
             None \<Rightarrow> Inl (InvalidEnd p1)
           | Some end \<Rightarrow>
               if f64_gt start end then Inl (InvalidRange p0 p1) else Inr (start, end)))"

text \<open>The inner loop of a range token: every available chapter between the bounds.\<close>

fun addRange :: "float64 list \<Rightarrow> float64 \<Rightarrow> float64 \<Rightarrow> bool f64map \<Rightarrow> bool f64map" where
  "addRange [] start end chapterMap = chapterMap"
| "addRange (chapter # rest) start end chapterMap =
     addRange rest start end
       (if f64_ge chapter start \<and> f64_le chapter end
        then mapassign chapterMap chapter True else chapterMap)"

text \<open>The loop over the comma-separated parts; an error ends it at once.\<close>

fun parseParts ::
  "parser \<Rightarrow> float64 list \<Rightarrow> string list \<Rightarrow> bool f64map \<Rightarrow> error + bool f64map" where
  "parseParts pf availableChapters [] chapterMap = Inr chapterMap"
| "parseParts pf availableChapters (part # parts) chapterMap =
     (if Contains part CHR ''-'' then
        (let rangeParts = Split part CHR ''-'' in
         if length rangeParts \<noteq> 2 then Inl (InvalidRangeFormat part)
         else (case parseRange pf rangeParts of
                 Inl err \<Rightarrow> Inl err
               | Inr (start, end) \<Rightarrow>
                   parseParts pf availableChapters parts
                     (addRange availableChapters start end chapterMap)))
      else (case pf (TrimSpace part) of
              None \<Rightarrow> Inl (NumError (TrimSpace part))
            | Some chapter \<Rightarrow>
                parseParts pf availableChapters parts (mapassign chapterMap chapter True)))"

definition mapToSlice :: "bool f64map \<Rightarrow> float64 list" where
  "mapToSlice chapterMap = Float64s (map fst chapterMap)"

definition parseChapterSelection :: "parser \<Rightarrow> string \<Rightarrow> float64 list \<Rightarrow> error + float64 list" where
  "parseChapterSelection pf input availableChapters =
     (case parseParts pf availableChapters (Split input CHR '','') [] of
        Inl err \<Rightarrow> Inl err
      | Inr chapterMap \<Rightarrow> Inr (mapToSlice chapterMap))"

subsection \<open>The scraped data\<close>

record Manga =
  URL :: string
  Title :: string

record Chapter =
  URL :: string
  Number :: float64
  Title :: string
  ImageURLs :: "string list"
  Folder :: string

subsection \<open>Resolving the selected numbers to chapters\<close>

text \<open>
  In the newest variant \<open>chapterSelection\<close> stores every chapter in a map under its number
  and \<open>getSelectedChapters\<close> looks each selected number up.
\<close>

fun chapterMapOf :: "Chapter list \<Rightarrow> Chapter f64map \<Rightarrow> Chapter f64map" where
  "chapterMapOf [] chapterMap = chapterMap"
| "chapterMapOf (chapter # rest) chapterMap =
     chapterMapOf rest (mapassign chapterMap (Number chapter) chapter)"

definition getChapterNumbers :: "Chapter list \<Rightarrow> float64 list" where
  "getChapterNumbers chapters = map Number chapters"

fun getSelectedChapters :: "float64 list \<Rightarrow> Chapter f64map \<Rightarrow> Chapter list" where
  "getSelectedChapters [] chapterMap = []"
| "getSelectedChapters (num # rest) chapterMap =
     (case mapaccess chapterMap num of
        Some chapter \<Rightarrow> chapter # getSelectedChapters rest chapterMap
      | None \<Rightarrow> getSelectedChapters rest chapterMap)"

text \<open>
  \<open>chapterSelection\<close> of the newest variant, from the text that was read and the chapters
  that were scraped and sorted by number.
\<close>

definition chapterSelection :: "parser \<Rightarrow> string \<Rightarrow> Chapter list \<Rightarrow> error + Chapter list" where
  "chapterSelection pf input allChapters =
     (case parseChapterSelection pf input (getChapterNumbers allChapters) of
        Inl err \<Rightarrow> Inl err
      | Inr chapterNumbers \<Rightarrow>
          Inr (getSelectedChapters chapterNumbers (chapterMapOf allChapters [])))"

text \<open>
  In \<^verbatim>\<open>cmd/tcb-cli/main.go\<close> the loop of \<open>chapterSelection\<close> keeps the chapters whose number
  \<^verbatim>\<open>slices.Contains\<close> finds among the selected numbers.
\<close>

definition selectedChapters :: "float64 list \<Rightarrow> Chapter list \<Rightarrow> Chapter list" where
  "selectedChapters chapterNumbers allChapters =
     filter (\<lambda>chapter. list_ex (\<lambda>n. f64_eq n (Number chapter)) chapterNumbers) allChapters"

subsection \<open>Chapter numbers and titles\<close>

definition isDigit :: "char \<Rightarrow> bool" where
  "isDigit c = (c \<in> set ''0123456789'')"

text \<open>
  The regular expression \<^verbatim>\<open>Chapter (\d+(\.\d+)?)\<close>. \<open>matchHere s\<close> is its match at the start
  of \<open>s\<close>: the whole match, the first group and the second group (empty when it took no
  part), or nothing. The digits are taken greedily, and the fraction whenever a dot and a
  digit follow.
\<close>

definition matchHere :: "string \<Rightarrow> string list" where
  "matchHere s =
     (if take 8 s = ''Chapter '' then
        (let ds = takeWhile isDigit (drop 8 s); rest = dropWhile isDigit (drop 8 s) in
         if ds = [] then []
         else if rest \<noteq> [] \<and> hd rest = CHR ''.'' \<and> takeWhile isDigit (tl rest) \<noteq> [] then
           (let fs = takeWhile isDigit (tl rest) in
            [''Chapter '' @ ds @ ''.'' @ fs, ds @ ''.'' @ fs, ''.'' @ fs])
         else [''Chapter '' @ ds, ds, ''''])
      else [])"

text \<open>
  The strings that the regular expression matches: "Chapter ", one digit or more, and
  possibly a dot and one digit or more.
\<close>

definition chapterPattern :: "string \<Rightarrow> bool" where
  "chapterPattern w =
     (\<exists>ds. ds \<noteq> [] \<and> list_all isDigit ds
         \<and> (w = ''Chapter '' @ ds
            \<or> (\<exists>fs. fs \<noteq> [] \<and> list_all isDigit fs \<and> w = ''Chapter '' @ ds @ ''.'' @ fs)))"

text \<open>\<^verbatim>\<open>FindStringSubmatch\<close>: the leftmost match, \<open>[]\<close> for \<^verbatim>\<open>nil\<close>.\<close>

fun FindStringSubmatch :: "string \<Rightarrow> string list" where
  "FindStringSubmatch [] = matchHere []"
| "FindStringSubmatch (c # cs) =
     (if matchHere (c # cs) \<noteq> [] then matchHere (c # cs) else FindStringSubmatch cs)"

text \<open>
  \<open>getChapterNumber\<close> returns a number and an error, \<open>None\<close> for \<^verbatim>\<open>nil\<close>. The pattern is a
  constant that compiles, so \<^verbatim>\<open>err\<close> is \<^verbatim>\<open>nil\<close> after \<^verbatim>\<open>regexp.Compile\<close>.
\<close>

definition getChapterNumber :: "parser \<Rightarrow> string \<Rightarrow> float64 \<times> error option" where
  "getChapterNumber pf name =
     (let matches = FindStringSubmatch name in
      if length matches > 1 then
        (case pf (matches ! 1) of
           None \<Rightarrow> (Fin 0, Some (NumError (matches ! 1)))
         | Some number \<Rightarrow> (number, None))
      else (Fin 0, None))"

text \<open>\<^verbatim>\<open>strings.Trim(s, cutset)\<close> for a cutset of ASCII bytes.\<close>

definition Trim :: "string \<Rightarrow> string \<Rightarrow> string" where
  "Trim s cutset =
     dropWhile (\<lambda>c. c \<in> set cutset) (rev (dropWhile (\<lambda>c. c \<in> set cutset) (rev s)))"

text \<open>The character class \<^verbatim>\<open>[<>:"/\\|?*]\<close>.\<close>

definition illegalChars :: string where
  "illegalChars =
     [CHR ''<'', CHR ''>'', CHR '':'', CHR 0x22, CHR ''/'', CHR 0x5C, CHR ''|'', CHR ''?'',
      CHR ''*'']"

text \<open>Replacing every match of the class by the empty string deletes these bytes.\<close>

definition getCleanChapterTitle :: "string \<Rightarrow> string" where
  "getCleanChapterTitle title =
     filter (\<lambda>c. c \<notin> set illegalChars) (Trim title '' .'')"

subsection \<open>Package path/filepath, with the separator of Unix\<close>

text \<open>\<^verbatim>\<open>strings.Join\<close>.\<close>

fun strings_Join :: "string list \<Rightarrow> string \<Rightarrow> string" where
  "strings_Join [] sep = []"
| "strings_Join [e] sep = e"
| "strings_Join (e # es) sep = e @ sep @ strings_Join es sep"

text \<open>
  \<^verbatim>\<open>filepath.Clean\<close> on the elements between the slashes: \<open>out\<close> holds the elements written
  so far, the last one first. Empty elements and \<^verbatim>\<open>.\<close> are dropped; \<^verbatim>\<open>..\<close> removes the
  element before it, is dropped at the root, and is kept at the start of a path that is not
  rooted.
\<close>

definition cleanStep :: "bool \<Rightarrow> string list \<Rightarrow> string \<Rightarrow> string list" where
  "cleanStep rooted out e =
     (if e = [] \<or> e = ''.'' then out
      else if e = ''..'' then
        (case out of
           [] \<Rightarrow> if rooted then [] else [''..'']
         | e' # below \<Rightarrow> if e' \<noteq> ''..'' then below else ''..'' # out)
      else e # out)"

definition Clean :: "string \<Rightarrow> string" where
  "Clean path =
     (if path = [] then ''.''
      else (let rooted = (hd path = CHR ''/'');
                out = rev (foldl (cleanStep rooted) [] (Split path CHR ''/''))
            in if rooted then CHR ''/'' # strings_Join out ''/''
               else if out = [] then ''.''
               else strings_Join out ''/''))"

text \<open>\<^verbatim>\<open>filepath.Join\<close>: the elements from the first one that is not empty, joined and cleaned.\<close>

definition Join :: "string list \<Rightarrow> string" where
  "Join elem =
     (case dropWhile (\<lambda>e. e = []) elem of
        [] \<Rightarrow> []
      | es \<Rightarrow> Clean (strings_Join es ''/''))"

text \<open>\<^verbatim>\<open>filepath.Ext\<close>: from the last dot of the last element, scanning from the end.\<close>

fun extScan :: "string \<Rightarrow> string \<Rightarrow> string" where
  "extScan [] acc = []"
| "extScan (c # cs) acc =
     (if c = CHR ''/'' then []
      else if c = CHR ''.'' then c # acc
      else extScan cs (c # acc))"

definition Ext :: "string \<Rightarrow> string" where
  "Ext path = extScan (rev path) []"

subsection \<open>Package fmt\<close>

text \<open>The decimal digits of a number.\<close>

definition digit :: "nat \<Rightarrow> char" where
  "digit d = char_of (48 + d)"

function digitsOf :: "nat \<Rightarrow> string" where
  "digitsOf n = (if n < 10 then [digit n] else digitsOf (n div 10) @ [digit (n mod 10)])"
  by pat_completeness auto
termination
  by (relation "measure id") auto

declare digitsOf.simps [simp del]

definition zeroPad :: "nat \<Rightarrow> string \<Rightarrow> string" where
  "zeroPad w s = replicate (w - length s) CHR ''0'' @ s"

text \<open>
  The verb \<^verbatim>\<open>%03d\<close>: at least three digits, or a sign and at least two.
\<close>

definition Sprintf_03d :: "int \<Rightarrow> string" where
  "Sprintf_03d n =
     (if n < 0 then CHR ''-'' # zeroPad 2 (digitsOf (nat (- n)))
      else zeroPad 3 (digitsOf (nat n)))"

text \<open>
  The verb \<^verbatim>\<open>%03g\<close> on the text \<open>t\<close> that \<^verbatim>\<open>strconv.AppendFloat\<close> made, as
  \<^verbatim>\<open>fmt.fmtFloat\<close> treats it: a text without a sign gets the sign \<^verbatim>\<open>+\<close>; infinities and NaN
  are padded with spaces; a number with a sign other than \<^verbatim>\<open>+\<close> gets its zeros after the
  sign; every other number is printed without its sign and padded with zeros on the left to
  the width 3. (\<^verbatim>\<open>AppendFloat\<close> never makes the empty text.)
\<close>

definition fmtFloat_03g :: "string \<Rightarrow> string" where
  "fmtFloat_03g t =
     (let signed = (t \<noteq> [] \<and> (hd t = CHR ''-'' \<or> hd t = CHR ''+''));
          sign = (if signed then hd t else CHR ''+'');
          body = (if signed then tl t else t);
          num = sign # body
      in if body \<noteq> [] \<and> (hd body = CHR ''I'' \<or> hd body = CHR ''N'') then
           (let num' = (if hd body = CHR ''N'' then body else num)
            in replicate (3 - length num') CHR '' '' @ num')
         else if sign \<noteq> CHR ''+'' then
           (if 3 > length num then sign # replicate (3 - length num) CHR ''0'' @ body
            else num)
         else replicate (3 - length body) CHR ''0'' @ body)"

subsection \<open>Names of directories and files\<close>

text \<open>
  The callback of \<open>getChapters\<close> for one chapter of the page: \<open>href\<close> is the link, \<open>nameText\<close>
  the text with the chapter number and \<open>titleText\<close> the text with the title. An error of
  \<open>getChapterNumber\<close> ends the program.
\<close>

definition onChapter ::
  "parser \<Rightarrow> (float64 \<Rightarrow> string) \<Rightarrow> Manga \<Rightarrow> string \<Rightarrow> string \<Rightarrow> string \<Rightarrow> error + Chapter" where
  "onChapter pf g manga href nameText titleText =
     (case getChapterNumber pf (TrimSpace nameText) of
        (number, Some err) \<Rightarrow> Inl err
      | (number, None) \<Rightarrow>
          (let title = getCleanChapterTitle titleText in
           Inr \<lparr>URL = href, Number = number, Title = title, ImageURLs = [],
                Folder = Join [Manga.Title manga, g number @ '' '' @ title]\<rparr>))"

text \<open>\<open>dirPath\<close> of \<open>downloadImages\<close>.\<close>

definition dirPath :: "(float64 \<Rightarrow> string) \<Rightarrow> string \<Rightarrow> Manga \<Rightarrow> Chapter \<Rightarrow> string" where
  "dirPath g selectedDownloadLocation manga chapter =
     TrimSpace (Join [selectedDownloadLocation, Manga.Title manga,
                      fmtFloat_03g (g (Number chapter)) @ '' '' @ Title chapter])"

text \<open>
  The file of the image at index \<open>i\<close> of \<^verbatim>\<open>chapter.ImageURLs\<close>: its name, and its path in the
  chapter's directory.
\<close>

definition imageName :: "nat \<Rightarrow> string \<Rightarrow> string" where
  "imageName i imageURL = Sprintf_03d (int i + 1) @ Ext imageURL"

definition filename :: "string \<Rightarrow> nat \<Rightarrow> string \<Rightarrow> string" where
  "filename dir i imageURL = Join [dir, imageName i imageURL]"

text \<open>The names of all images of a chapter, in the order of the loop.\<close>

definition imageNames :: "string list \<Rightarrow> string list" where
  "imageNames imageURLs = map (\<lambda>(i, imageURL). imageName i imageURL) (enumerate 0 imageURLs)"

subsection \<open>Files, and the archive of a chapter\<close>

text \<open>
  What a file holds: bytes, a zip archive (its entries in the order written, and whether
  \<^verbatim>\<open>zip.Writer.Close\<close> has written its directory), or the cut-off bytes of a copy that
  failed. A file system is a list of paths with their nodes, each path once.
\<close>

datatype content = Bytes string | Archive "(string \<times> content) list" bool | Truncated

datatype node = Dir | File content

type_synonym fs = "(string \<times> node) list"

record world =
  files :: fs
  stdout :: "string list"

text \<open>
  The calls of the operating system and of the zip writer that can fail. Whether one fails
  is for the environment to say: \<open>fails\<close> is a parameter of the functions below.
\<close>

datatype call =
    CreateFile string
  | Lstat string
  | ReadDirNames string
  | OpenFile string
  | ZipCreate string
  | CopyTo string
  | ZipClose
  | RemoveAllPath string

definition store :: "fs \<Rightarrow> string \<Rightarrow> node \<Rightarrow> fs" where
  "store fs path n = (path, n) # filter (\<lambda>(p, _). p \<noteq> path) fs"

text \<open>\<open>inside d p\<close>: the path \<open>p\<close> is the directory \<open>d\<close> or lies below it.\<close>

definition inside :: "string \<Rightarrow> string \<Rightarrow> bool" where
  "inside d p = (p = d \<or> take (length d + 1) p = d @ ''/'')"

definition os_RemoveAll :: "fs \<Rightarrow> string \<Rightarrow> fs" where
  "os_RemoveAll fs path = filter (\<lambda>(p, _). \<not> inside path p) fs"

text \<open>\<^verbatim>\<open>info.Name()\<close>: the last element of the path.\<close>

definition Base :: "string \<Rightarrow> string" where
  "Base path = last (Split path CHR ''/'')"

text \<open>
  \<open>addFileToZip\<close> on the entries written so far: open the file, start an entry, copy the
  bytes.
\<close>

definition addFileToZip ::
  "(call \<Rightarrow> bool) \<Rightarrow> (string \<times> content) list \<Rightarrow> string \<Rightarrow> string \<Rightarrow> content
     \<Rightarrow> (string \<times> content) list \<times> error option" where
  "addFileToZip fails zipWriter filePath fileName c =
     (if fails (OpenFile filePath) then (zipWriter, Some (PathError filePath))
      else if fails (ZipCreate fileName) then (zipWriter, Some (WriteError fileName))
      else if fails (CopyTo fileName) then
        (zipWriter @ [(fileName, Truncated)], Some (WriteError fileName))
      else (zipWriter @ [(fileName, c)], None))"

text \<open>
  \<^verbatim>\<open>filepath.Walk\<close> with the function that \<open>createCbzArchive\<close> gives it. The nodes are visited
  in the order of \<open>Walk\<close>: a directory before what it holds, the names of a directory in
  lexical order, which is the lexical order of the lists of path elements. An error of
  \<^verbatim>\<open>Lstat\<close> or of reading a directory is handed to the function, which returns it; a file is
  added to the archive; the first error ends the walk.
\<close>

fun walk ::
  "(call \<Rightarrow> bool) \<Rightarrow> (string \<times> node) list \<Rightarrow> (string \<times> content) list
     \<Rightarrow> (string \<times> content) list \<times> error option" where
  "walk fails [] zipWriter = (zipWriter, None)"
| "walk fails ((path, n) # rest) zipWriter =
     (if fails (Lstat path) then (zipWriter, Some (PathError path))
      else (case n of
              Dir \<Rightarrow>
                if fails (ReadDirNames path) then (zipWriter, Some (PathError path))
                else walk fails rest zipWriter
            | File c \<Rightarrow>
                (case addFileToZip fails zipWriter path (Base path) c of
                   (zipWriter', Some err) \<Rightarrow> (zipWriter', Some err)
                 | (zipWriter', None) \<Rightarrow> walk fails rest zipWriter')))"

definition visited :: "fs \<Rightarrow> string \<Rightarrow> (string \<times> node) list" where
  "visited fs dir =
     sort_key (\<lambda>(p, n). Split p CHR ''/'') (filter (\<lambda>(p, n). inside dir p) fs)"

definition Walk ::
  "(call \<Rightarrow> bool) \<Rightarrow> fs \<Rightarrow> string \<Rightarrow> (string \<times> content) list \<times> error option" where
  "Walk fails fs dir =
     (if map_of fs dir = None then ([], Some (PathError dir))
      else walk fails (visited fs dir) [])"

text \<open>
  What an archive of the visited nodes is to hold: every file, under the last element of
  its path.
\<close>

definition filesOf :: "(string \<times> node) list \<Rightarrow> (string \<times> content) list" where
  "filesOf nodes =
     concat (map (\<lambda>(p, n). case n of File c \<Rightarrow> [(Base p, c)] | Dir \<Rightarrow> []) nodes)"

text \<open>
  \<open>createCbzArchive\<close>: the archive is created (or emptied) first; the deferred calls close
  the zip writer, printing a failure of that (the line is kept without the text of the
  error), and the file, whatever the walk returned.
\<close>

definition createCbzArchive ::
  "(call \<Rightarrow> bool) \<Rightarrow> string \<Rightarrow> string \<Rightarrow> world \<Rightarrow> world \<times> error option" where
  "createCbzArchive fails sourceDir cbzFilename w =
     (if fails (CreateFile cbzFilename) \<or> map_of (files w) cbzFilename = Some Dir
      then (w, Some (PathError cbzFilename))
      else (let fs1 = store (files w) cbzFilename (File (Archive [] False));
                (zipWriter, err) = Walk fails fs1 sourceDir;
                closed = (\<not> fails ZipClose)
            in (\<lparr>files = store fs1 cbzFilename (File (Archive zipWriter closed)),
                 stdout = (if closed then stdout w
                           else stdout w @ [''Error closing zip writer:''])\<rparr>,
                err)))"

text \<open>The name of the archive in \<open>downloadImages\<close>.\<close>

definition cbzFilename :: "(float64 \<Rightarrow> string) \<Rightarrow> string \<Rightarrow> Manga \<Rightarrow> Chapter \<Rightarrow> string" where
  "cbzFilename g selectedDownloadLocation manga chapter =
     Join [selectedDownloadLocation, Manga.Title manga,
           fmtFloat_03g (g (Number chapter)) @ '' '' @ Title chapter @ ''.cbz'']"

text \<open>
  The end of \<open>downloadImages\<close> in the newest variant, after all images are downloaded. (What a
  failing \<^verbatim>\<open>os.RemoveAll\<close> has removed before it fails is not modelled.)
\<close>

definition archiveChapter ::
  "(call \<Rightarrow> bool) \<Rightarrow> (float64 \<Rightarrow> string) \<Rightarrow> string \<Rightarrow> Manga \<Rightarrow> Chapter \<Rightarrow> bool \<Rightarrow> world
     \<Rightarrow> world \<times> error option" where
  "archiveChapter fails g selectedDownloadLocation manga chapter createCbz w =
     (if createCbz then
        (case createCbzArchive fails (dirPath g selectedDownloadLocation manga chapter)
                (cbzFilename g selectedDownloadLocation manga chapter) w of
           (w', Some err) \<Rightarrow> (w', Some err)
         | (w', None) \<Rightarrow>
             if fails (RemoveAllPath (dirPath g selectedDownloadLocation manga chapter))
             then (w', Some (PathError (dirPath g selectedDownloadLocation manga chapter)))
             else (w'\<lparr>files := os_RemoveAll (files w')
                                 (dirPath g selectedDownloadLocation manga chapter)\<rparr>, None))
      else (w, None))"

subsection \<open>Decimal literals, for the evaluated examples\<close>

text \<open>
  \<open>decimalLiteral\<close> reads the texts \<^verbatim>\<open>digits\<close> and \<^verbatim>\<open>digits.digits\<close> as the number they
  denote and rejects every other text. On a text of this form whose number is a
  \<^verbatim>\<open>float64\<close> (1, 3, 2.5, ...) \<^verbatim>\<open>strconv.ParseFloat\<close> returns the same value, and it
  rejects the empty text and a text of letters as well. It is the parser of the evaluated
  examples only; no theorem about the program depends on it.
\<close>

definition digitValue :: "char \<Rightarrow> nat" where
  "digitValue c = of_char c - 48"

fun digitsValue :: "nat \<Rightarrow> string \<Rightarrow> nat" where
  "digitsValue acc [] = acc"
| "digitsValue acc (c # cs) = digitsValue (10 * acc + digitValue c) cs"

definition decimalLiteral :: parser where
  "decimalLiteral s =
     (let i = takeWhile isDigit s; rest = dropWhile isDigit s in
      if i = [] then None
      else if rest = [] then Some (Fin (of_nat (digitsValue 0 i)))
      else if hd rest = CHR ''.'' \<and> tl rest \<noteq> [] \<and> list_all isDigit (tl rest)
      then Some (Fin (of_nat (digitsValue 0 i)
                      + of_nat (digitsValue 0 (tl rest)) / 10 ^ length (tl rest)))
      else None)"

text \<open>
  \<open>decimalText\<close> writes a number in decimal notation, with the digits of its fraction when
  it has one. For a number from 0.0001 up to 999999 with at most 15 significant decimal
  digits (5, 2.5, 10.5, ...) this is the text of the verb \<^verbatim>\<open>%g\<close>. Like \<open>decimalLiteral\<close> it
  serves the evaluated examples only.
\<close>

fun fracDigits :: "nat \<Rightarrow> rat \<Rightarrow> string" where
  "fracDigits 0 r = []"
| "fracDigits (Suc k) r =
     (if r = 0 then []
      else (let d = nat \<lfloor>r * 10\<rfloor> in digit d # fracDigits k (r * 10 - of_nat d)))"

definition decimalText :: "float64 \<Rightarrow> string" where
  "decimalText x =
     (case x of
        NaN \<Rightarrow> ''NaN''
      | PosInf \<Rightarrow> ''+Inf''
      | NegInf \<Rightarrow> ''-Inf''
      | Fin r \<Rightarrow>
          (let a = \<bar>r\<bar>; i = nat \<lfloor>a\<rfloor>; f = a - of_nat i in
           (if r < 0 then ''-'' else []) @ digitsOf i
           @ (if f = 0 then [] else CHR ''.'' # fracDigits 17 f)))"

text \<open>
  A download location with the directory of chapter 5, "005 T", which holds the two images
  of the chapter; the chapter as \<open>downloadSelectedChapters\<close> hands it to \<open>downloadImages\<close>,
  with the URLs of its images; an environment in which no call fails, and one in which the
  second image cannot be opened.
\<close>

definition exampleWorld :: world where
  "exampleWorld =
     \<lparr>files = [(''/dl'', Dir), (''/dl/M'', Dir), (''/dl/M/005 T'', Dir),
               (''/dl/M/005 T/002.jpg'', File (Bytes ''bb'')),
               (''/dl/M/005 T/001.jpg'', File (Bytes ''aa''))],
      stdout = []\<rparr>"

definition exampleManga :: Manga where
  "exampleManga = \<lparr>Manga.URL = ''/mangas/1'', Title = ''M''\<rparr>"

definition exampleChapter :: Chapter where
  "exampleChapter =
     \<lparr>URL = ''/chapters/5'', Number = Fin 5, Title = ''T'',
      ImageURLs = [''https://cdn.example/m/5/a.jpg'', ''https://cdn.example/m/5/b.jpg''],
      Folder = ''M/5 T''\<rparr>"

definition nothingFails :: "call \<Rightarrow> bool" where
  "nothingFails c = False"

definition secondOpenFails :: "call \<Rightarrow> bool" where
  "secondOpenFails c = (c = OpenFile ''/dl/M/005 T/002.jpg'')"

text \<open>An environment in which closing the zip writer fails, and nothing else.\<close>

definition closeFails :: "call \<Rightarrow> bool" where
  "closeFails c = (c = ZipClose)"

subsection \<open>Notions of the specification\<close>


text \<open>
  "The source URL's path extension": the path of a URL is the URL without its fragment and
  its query, without its scheme, and without the authority that follows \<^verbatim>\<open>//\<close>; the
  extension of a path starts at the last dot of its last element and includes the dot, and
  it is empty when the last element has no dot.
\<close>

definition urlPath :: "string \<Rightarrow> string" where
  "urlPath url =
     (let noFragment = takeWhile (\<lambda>c. c \<noteq> CHR ''#'') url;
          noQuery = takeWhile (\<lambda>c. c \<noteq> CHR ''?'') noFragment;
          rest = (if CHR '':'' \<in> set (takeWhile (\<lambda>c. c \<noteq> CHR ''/'') noQuery)
                  then tl (dropWhile (\<lambda>c. c \<noteq> CHR '':'') noQuery) else noQuery)
      in if take 2 rest = ''//'' then dropWhile (\<lambda>c. c \<noteq> CHR ''/'') (drop 2 rest) else rest)"

definition pathExtension :: "string \<Rightarrow> string" where
  "pathExtension path =
     (let name = last (Split path CHR ''/'') in
      if CHR ''.'' \<in> set name then CHR ''.'' # rev (takeWhile (\<lambda>c. c \<noteq> CHR ''.'') (rev name))
      else [])"

definition urlPathExtension :: "string \<Rightarrow> string" where
  "urlPathExtension url = pathExtension (urlPath url)"

text \<open>An element of a path that \<open>Clean\<close> leaves as it is.\<close>

definition plain :: "string \<Rightarrow> bool" where
  "plain e = (e \<noteq> [] \<and> CHR ''/'' \<notin> set e \<and> e \<noteq> ''.'' \<and> e \<noteq> ''..'')"

section \<open>Properties of the selection parser\<close>

subsection \<open>The order of float64\<close>

lemma f64_lt_irrefl: "\<not> f64_lt x x"
  by (cases x) auto

lemma f64_lt_trans: "f64_lt x y \<Longrightarrow> f64_lt y z \<Longrightarrow> f64_lt x z"
  by (cases x; cases y; cases z) auto

lemma f64_lt_asym: "f64_lt x y \<Longrightarrow> \<not> f64_lt y x"
  by (cases x; cases y) auto

lemma f64_lt_total: "x \<noteq> NaN \<Longrightarrow> y \<noteq> NaN \<Longrightarrow> x \<noteq> y \<Longrightarrow> f64_lt x y \<or> f64_lt y x"
  by (cases x; cases y) auto

lemma f64_lt_not_NaN: "f64_lt x y \<Longrightarrow> x \<noteq> NaN \<and> y \<noteq> NaN"
  by (cases x; cases y) auto

lemma f64_le_not_NaN: "f64_le x y \<Longrightarrow> x \<noteq> NaN \<and> y \<noteq> NaN"
  by (auto simp: f64_le_def f64_eq_def dest: f64_lt_not_NaN)

lemma f64_le_not_gt: "f64_le x y \<Longrightarrow> \<not> f64_gt x y"
  by (auto simp: f64_gt_def f64_le_def f64_eq_def f64_lt_irrefl dest: f64_lt_asym)

lemma Less_no_NaN: "x \<noteq> NaN \<Longrightarrow> y \<noteq> NaN \<Longrightarrow> Less x y = f64_lt x y"
  by (simp add: Less_def isNaN_def f64_eq_def)

subsection \<open>Sorting\<close>

lemma set_insertLess: "set (insertLess x xs) = insert x (set xs)"
  by (induction xs) auto

lemma set_Float64s: "set (Float64s xs) = set xs"
  by (induction xs) (auto simp: set_insertLess)

lemma sorted_insertLess:
  "sorted_wrt f64_lt ys \<Longrightarrow> x \<notin> set ys \<Longrightarrow> x \<noteq> NaN \<Longrightarrow> NaN \<notin> set ys
   \<Longrightarrow> sorted_wrt f64_lt (insertLess x ys)"
proof (induction ys)
  case Nil
  then show ?case by simp
next
  case (Cons y ys)
  show ?case
  proof (cases "Less y x")
    case True
    from Cons.prems have nn: "x \<noteq> NaN" "y \<noteq> NaN" by auto
    with True have "f64_lt y x" by (simp add: Less_no_NaN)
    then show ?thesis using True Cons by (auto simp: set_insertLess)
  next
    case False
    from Cons.prems have nn: "x \<noteq> NaN" "y \<noteq> NaN" "x \<noteq> y" by auto
    with False have "\<not> f64_lt y x" by (simp add: Less_no_NaN)
    with nn have "f64_lt x y" using f64_lt_total[of x y] by blast
    then show ?thesis using False Cons.prems by (auto intro: f64_lt_trans)
  qed
qed

lemma sorted_Float64s:
  "distinct xs \<Longrightarrow> NaN \<notin> set xs \<Longrightarrow> sorted_wrt f64_lt (Float64s xs)"
  by (induction xs) (auto simp: sorted_insertLess set_Float64s)

text \<open>A strictly ascending slice is determined by the set of its elements.\<close>

lemma strict_sorted_unique:
  "sorted_wrt f64_lt xs \<Longrightarrow> sorted_wrt f64_lt ys \<Longrightarrow> set xs = set ys \<Longrightarrow> xs = ys"
proof (induction xs arbitrary: ys)
  case Nil
  then show ?case by simp
next
  case (Cons x xs)
  then obtain y ys' where ys: "ys = y # ys'" by (cases ys) auto
  have xy: "x = y"
  proof (rule ccontr)
    assume ne: "x \<noteq> y"
    have "x \<in> set ys'" using Cons.prems(3) ne ys by auto
    then have 1: "f64_lt y x" using Cons.prems(2) ys by auto
    have "y \<in> set xs" using Cons.prems(3) ne ys by auto
    then have "f64_lt x y" using Cons.prems(1) by auto
    then show False using 1 f64_lt_asym by blast
  qed
  have "x \<notin> set xs" using Cons.prems(1) f64_lt_irrefl by auto
  moreover have "y \<notin> set ys'" using Cons.prems(2) ys f64_lt_irrefl by auto
  ultimately have "set xs = set ys'" using Cons.prems(3) ys xy by auto
  then show ?case using Cons ys xy by auto
qed

subsection \<open>The keys of a map\<close>

lemma keys_mapassign: "fst ` set (mapassign m k v) = insert k (fst ` set m)"
proof (induction m)
  case Nil
  then show ?case by simp
next
  case (Cons a m)
  obtain k' v' where a: "a = (k', v')" by (cases a)
  show ?case
  proof (cases "f64_eq k' k")
    case True
    then have "k' = k" by (simp add: f64_eq_def)
    then show ?thesis using True a by simp
  next
    case False
    then show ?thesis using a Cons.IH by (simp add: insert_commute)
  qed
qed

lemma distinct_mapassign:
  "distinct (map fst m) \<Longrightarrow> k \<noteq> NaN \<Longrightarrow> distinct (map fst (mapassign m k v))"
proof (induction m)
  case Nil
  then show ?case by simp
next
  case (Cons a m)
  obtain k' v' where a: "a = (k', v')" by (cases a)
  show ?case
  proof (cases "f64_eq k' k")
    case True
    then have "k' = k" by (simp add: f64_eq_def)
    then show ?thesis using True a Cons.prems by simp
  next
    case False
    then have "k' \<noteq> k" using Cons.prems(2) by (auto simp: f64_eq_def)
    then show ?thesis using False a Cons by (simp add: keys_mapassign)
  qed
qed

lemma keys_addRange:
  "fst ` set (addRange av s e m) = fst ` set m \<union> {v \<in> set av. f64_ge v s \<and> f64_le v e}"
  by (induction av arbitrary: m) (auto simp: keys_mapassign)

lemma distinct_addRange:
  "distinct (map fst m) \<Longrightarrow> distinct (map fst (addRange av s e m))"
proof (induction av arbitrary: m)
  case Nil
  then show ?case by simp
next
  case (Cons v av)
  show ?case
  proof (cases "f64_ge v s \<and> f64_le v e")
    case True
    then have "v \<noteq> NaN" using f64_le_not_NaN by blast
    then have "distinct (map fst (mapassign m v True))"
      using Cons.prems by (rule_tac distinct_mapassign)
    then show ?thesis using True Cons.IH by simp
  next
    case False
    then show ?thesis using Cons by auto
  qed
qed

lemma addRange_nothing:
  "\<forall>v\<in>set av. \<not> (f64_le x v \<and> f64_le v y) \<Longrightarrow> addRange av x y m = m"
  by (induction av arbitrary: m) (auto simp: f64_ge_def)

subsection \<open>Splitting\<close>

lemma Split_nonempty: "Split s sep \<noteq> []"
  by (induction s) (auto split: list.splits)

lemma Split_no_sep: "sep \<notin> set s \<Longrightarrow> Split s sep = [s]"
  by (induction s) auto

lemma Split_append: "sep \<notin> set a \<Longrightarrow> Split (a @ sep # b) sep = a # Split b sep"
  by (induction a) (auto simp: Split_nonempty split: list.splits)

lemma Split_two_Contains: "length (Split s sep) = 2 \<Longrightarrow> Contains s sep"
  by (cases "sep \<in> set s") (auto simp: Contains_def Split_no_sep)

subsection \<open>The loop over the parts\<close>

lemma parseParts_append:
  "parseParts pf av (pre @ rest) m =
     (case parseParts pf av pre m of Inl e \<Rightarrow> Inl e | Inr m' \<Rightarrow> parseParts pf av rest m')"
  by (induction pre arbitrary: m) (auto simp: Let_def split: sum.splits option.splits)

text \<open>Tokens that are single numbers, none of them NaN: every one is stored as a key.\<close>

lemma parseParts_single:
  assumes "\<forall>p\<in>set parts. \<not> Contains p CHR ''-'' \<and> (\<exists>x. pf (TrimSpace p) = Some x \<and> \<not> isNaN x)"
    and "distinct (map fst m)" "NaN \<notin> fst ` set m"
  shows "\<exists>m'. parseParts pf av parts m = Inr m' \<and> distinct (map fst m') \<and> NaN \<notin> fst ` set m'
           \<and> fst ` set m' = fst ` set m \<union> {x. \<exists>p\<in>set parts. pf (TrimSpace p) = Some x}"
  using assms
proof (induction parts arbitrary: m)
  case Nil
  then show ?case by simp
next
  case (Cons p parts)
  from Cons.prems(1) obtain x where x: "\<not> Contains p CHR ''-''" "pf (TrimSpace p) = Some x" "x \<noteq> NaN"
    by (auto simp: isNaN_def f64_eq_def)
  let ?m = "mapassign m x True"
  have d: "distinct (map fst ?m)" using Cons.prems(2) x(3) by (rule distinct_mapassign)
  have n: "NaN \<notin> fst ` set ?m" using Cons.prems(3) x(3) by (simp add: keys_mapassign)
  have rest: "\<forall>p\<in>set parts. \<not> Contains p CHR ''-'' \<and> (\<exists>x. pf (TrimSpace p) = Some x \<and> \<not> isNaN x)"
    using Cons.prems(1) by simp
  from Cons.IH[OF rest d n] obtain m' where m': "parseParts pf av parts ?m = Inr m'"
    "distinct (map fst m')" "NaN \<notin> fst ` set m'"
    "fst ` set m' = fst ` set ?m \<union> {x. \<exists>p\<in>set parts. pf (TrimSpace p) = Some x}" by blast
  have "parseParts pf av (p # parts) m = Inr m'" using x m'(1) by simp
  moreover have "fst ` set m' = fst ` set m \<union> {x. \<exists>p\<in>set (p # parts). pf (TrimSpace p) = Some x}"
    using m'(4) x(2) by (auto simp: keys_mapassign)
  ultimately show ?case using m'(2,3) by blast
qed

text \<open>A malformed range token ends the loop with the error of its own kind.\<close>

lemma parseParts_bad:
  assumes "Contains part CHR ''-''"
    and "length (Split part CHR ''-'') \<noteq> 2
         \<or> (\<exists>a b. Split part CHR ''-'' = [a, b] \<and> (pf (TrimSpace a) = None \<or> pf (TrimSpace b) = None))"
  shows "parseParts pf av (part # post) m =
     Inl (if length (Split part CHR ''-'') \<noteq> 2 then InvalidRangeFormat part
          else if pf (TrimSpace (Split part CHR ''-'' ! 0)) = None
               then InvalidStart (Split part CHR ''-'' ! 0)
               else InvalidEnd (Split part CHR ''-'' ! 1))"
  using assms by (auto simp: Let_def split: option.splits)

text \<open>The loop only adds keys.\<close>

lemma parseParts_keeps:
  "parseParts pf av parts m = Inr m' \<Longrightarrow> fst ` set m \<subseteq> fst ` set m'"
proof (induction parts arbitrary: m)
  case Nil
  then show ?case by simp
next
  case (Cons p parts)
  show ?case
  proof (cases "Contains p CHR ''-''")
    case True
    with Cons.prems obtain s e where
      "parseParts pf av parts (addRange av s e m) = Inr m'"
      by (auto simp: Let_def split: if_splits sum.splits)
    from Cons.IH[OF this] show ?thesis by (auto simp: keys_addRange)
  next
    case False
    with Cons.prems obtain c where
      "parseParts pf av parts (mapassign m c True) = Inr m'"
      by (auto split: option.splits)
    from Cons.IH[OF this] show ?thesis by (auto simp: keys_mapassign)
  qed
qed

lemma parseParts_single_token:
  assumes "parseParts pf av (pre @ part # post) m = Inr m'"
    and "\<not> Contains part CHR ''-''" and "pf (TrimSpace part) = Some x"
  shows "x \<in> fst ` set m'"
proof -
  from assms(1) obtain m1 where m1: "parseParts pf av pre m = Inr m1"
    "parseParts pf av (part # post) m1 = Inr m'"
    by (auto simp: parseParts_append split: sum.splits)
  from m1(2) assms(2,3) have "parseParts pf av post (mapassign m1 x True) = Inr m'" by simp
  from parseParts_keeps[OF this] show ?thesis by (auto simp: keys_mapassign)
qed

lemma parseParts_empty_ranges:
  assumes "\<forall>part\<in>set parts. \<exists>a b x y. Split part CHR ''-'' = [a, b]
             \<and> pf (TrimSpace a) = Some x \<and> pf (TrimSpace b) = Some y \<and> f64_le x y
             \<and> (\<forall>v\<in>set av. \<not> (f64_le x v \<and> f64_le v y))"
  shows "parseParts pf av parts m = Inr m"
  using assms
proof (induction parts)
  case Nil
  then show ?case by simp
next
  case (Cons part parts)
  from Cons.prems obtain a b x y where h: "Split part CHR ''-'' = [a, b]"
    "pf (TrimSpace a) = Some x" "pf (TrimSpace b) = Some y" "f64_le x y"
    "\<forall>v\<in>set av. \<not> (f64_le x v \<and> f64_le v y)" by auto
  have c: "Contains part CHR ''-''" using h(1) by (intro Split_two_Contains) simp
  have "parseParts pf av (part # parts) m = parseParts pf av parts m"
    using c h(1,2,3) f64_le_not_gt[OF h(4)] addRange_nothing[OF h(5)] by simp
  then show ?case using Cons by simp
qed

subsection \<open>Range tokens\<close>

text \<open>
  Claim C1. The input is one range token \<open>a-b\<close>, neither part holding a comma or a hyphen,
  and both parts parse, to \<open>x\<close> and \<open>y\<close>. If \<open>x \<le> y\<close> the parser succeeds and returns exactly the
  available chapters \<open>v\<close> with \<open>x \<le> v \<le> y\<close>, in strictly ascending order; so the selection is a
  subset of the available chapters. If \<open>x > y\<close> it fails with the error of \<open>parseRange\<close>
  "start of range should not be greater than end".
\<close>

theorem parseChapterSelection_range_token:
  assumes "CHR '','' \<notin> set a" "CHR ''-'' \<notin> set a" "CHR '','' \<notin> set b" "CHR ''-'' \<notin> set b"
    and "pf (TrimSpace a) = Some x" "pf (TrimSpace b) = Some y"
  shows "(f64_le x y \<longrightarrow>
            (\<exists>r. parseChapterSelection pf (a @ ''-'' @ b) av = Inr r
                \<and> set r = {v \<in> set av. f64_le x v \<and> f64_le v y}
                \<and> set r \<subseteq> set av
                \<and> sorted_wrt f64_lt r))
       \<and> (f64_gt x y \<longrightarrow> parseChapterSelection pf (a @ ''-'' @ b) av = Inl (InvalidRange a b))"
proof -
  let ?tok = "a @ ''-'' @ b"
  have parts: "Split ?tok CHR '','' = [?tok]"
    using assms(1,3) by (simp add: Split_no_sep)
  have rp: "Split ?tok CHR ''-'' = [a, b]"
    using assms(2,4) by (simp add: Split_append Split_no_sep)
  have c: "Contains ?tok CHR ''-''" by (simp add: Contains_def)
  have gt: "parseChapterSelection pf ?tok av = Inl (InvalidRange a b)" if "f64_gt x y"
    using that parts rp c assms(5,6) by (simp add: parseChapterSelection_def)
  have le: "\<exists>r. parseChapterSelection pf ?tok av = Inr r
                \<and> set r = {v \<in> set av. f64_le x v \<and> f64_le v y}
                \<and> set r \<subseteq> set av
                \<and> sorted_wrt f64_lt r" if "f64_le x y"
  proof -
    let ?m = "addRange av x y []"
    have res: "parseChapterSelection pf ?tok av = Inr (mapToSlice ?m)"
      using f64_le_not_gt[OF that] parts rp c assms(5,6) by (simp add: parseChapterSelection_def)
    have keys: "set (map fst ?m) = {v \<in> set av. f64_le x v \<and> f64_le v y}"
      using keys_addRange[of av x y "[]"] by (simp add: f64_ge_def)
    have "NaN \<notin> set (map fst ?m)"
      unfolding keys using f64_le_not_NaN by blast
    moreover have "distinct (map fst ?m)" by (rule distinct_addRange) simp
    ultimately have "sorted_wrt f64_lt (mapToSlice ?m)"
      unfolding mapToSlice_def by (intro sorted_Float64s)
    moreover have s: "set (mapToSlice ?m) = {v \<in> set av. f64_le x v \<and> f64_le v y}"
      unfolding mapToSlice_def set_Float64s by (rule keys)
    moreover have "set (mapToSlice ?m) \<subseteq> set av" unfolding s by blast
    ultimately show ?thesis using res by blast
  qed
  show ?thesis using gt le by blast
qed

text \<open>
  The range 1-3 over the chapters 1, 2, 2.5, 3 and 4 succeeds with the chapters from 1 to 3;
  the range 3-1 is refused.
\<close>

theorem parseChapterSelection_range_token_witness:
  "(\<exists>r. parseChapterSelection decimalLiteral ''1-3'' [Fin 1, Fin 2, Fin (5/2), Fin 3, Fin 4] = Inr r
       \<and> set r = {v \<in> set [Fin 1, Fin 2, Fin (5/2), Fin 3, Fin 4].
                    f64_le (Fin 1) v \<and> f64_le v (Fin 3)}
       \<and> sorted_wrt f64_lt r)
   \<and> parseChapterSelection decimalLiteral ''3-1'' [Fin 1, Fin 2, Fin (5/2), Fin 3, Fin 4]
     = Inl (InvalidRange ''3'' ''1'')"
proof -
  let ?av = "[Fin 1, Fin 2, Fin (5/2), Fin 3, Fin 4]"
  have c: "CHR '','' \<notin> set ''1''" "CHR ''-'' \<notin> set ''1''" "CHR '','' \<notin> set ''3''"
    "CHR ''-'' \<notin> set ''3''" by simp_all
  have p: "decimalLiteral (TrimSpace ''1'') = Some (Fin 1)"
    "decimalLiteral (TrimSpace ''3'') = Some (Fin 3)" by code_simp+
  have o: "f64_le (Fin 1) (Fin 3)" "f64_gt (Fin 3) (Fin 1)" by code_simp+
  have e: "''1'' @ ''-'' @ ''3'' = ''1-3''" "''3'' @ ''-'' @ ''1'' = ''3-1''" by simp_all
  have 1: "\<exists>r. parseChapterSelection decimalLiteral ''1-3'' ?av = Inr r
       \<and> set r = {v \<in> set ?av. f64_le (Fin 1) v \<and> f64_le v (Fin 3)}
       \<and> sorted_wrt f64_lt r"
    using parseChapterSelection_range_token[OF c(1,2,3,4) p(1,2), of ?av, unfolded e] o(1)
    by blast
  have 2: "parseChapterSelection decimalLiteral ''3-1'' ?av = Inl (InvalidRange ''3'' ''1'')"
    using parseChapterSelection_range_token[OF c(3,4,1,2) p(2,1), of ?av, unfolded e] o(2)
    by blast
  show ?thesis using 1 2 by blast
qed

lemma range_token_example:
  "parseChapterSelection decimalLiteral ''1-3'' [Fin 1, Fin 2, Fin (5/2), Fin 3, Fin 4]
     = Inr [Fin 1, Fin 2, Fin (5/2), Fin 3]"
  by code_simp

subsection \<open>Lists of numbers\<close>

text \<open>
  Claim C2. Every comma-separated token of \<open>input\<close> is a single number: it has no hyphen and
  parses to a number (not to NaN). Then the parser succeeds, and its result holds exactly the
  numbers of the tokens, in strictly ascending order, hence each of them once. A second
  input \<open>input'\<close> of the same kind with the same numbers, in any order and with any
  repetitions, gives the same result.
\<close>

theorem parseChapterSelection_number_list:
  assumes "\<forall>p\<in>set (Split input CHR '','').
             \<not> Contains p CHR ''-'' \<and> (\<exists>x. pf (TrimSpace p) = Some x \<and> \<not> isNaN x)"
    and "\<forall>p\<in>set (Split input' CHR '','').
             \<not> Contains p CHR ''-'' \<and> (\<exists>x. pf (TrimSpace p) = Some x \<and> \<not> isNaN x)"
    and "{x. \<exists>p\<in>set (Split input' CHR '',''). pf (TrimSpace p) = Some x}
       = {x. \<exists>p\<in>set (Split input CHR '',''). pf (TrimSpace p) = Some x}"
  shows "\<exists>r. parseChapterSelection pf input av = Inr r
           \<and> set r = {x. \<exists>p\<in>set (Split input CHR '',''). pf (TrimSpace p) = Some x}
           \<and> sorted_wrt f64_lt r
           \<and> parseChapterSelection pf input' av = Inr r"
proof -
  have *: "\<exists>r. parseChapterSelection pf i av = Inr r
           \<and> set r = {x. \<exists>p\<in>set (Split i CHR '',''). pf (TrimSpace p) = Some x}
           \<and> sorted_wrt f64_lt r"
    if "\<forall>p\<in>set (Split i CHR '','').
          \<not> Contains p CHR ''-'' \<and> (\<exists>x. pf (TrimSpace p) = Some x \<and> \<not> isNaN x)"
    for i
  proof -
    from parseParts_single[OF that, of "[]" av] obtain m where m:
      "parseParts pf av (Split i CHR '','') [] = Inr m" "distinct (map fst m)"
      "NaN \<notin> fst ` set m"
      "fst ` set m = {x. \<exists>p\<in>set (Split i CHR '',''). pf (TrimSpace p) = Some x}"
      by auto
    have "parseChapterSelection pf i av = Inr (mapToSlice m)"
      using m(1) by (simp add: parseChapterSelection_def)
    moreover have "set (mapToSlice m) = {x. \<exists>p\<in>set (Split i CHR '',''). pf (TrimSpace p) = Some x}"
      using m(4) by (simp add: mapToSlice_def set_Float64s)
    moreover have "sorted_wrt f64_lt (mapToSlice m)"
      unfolding mapToSlice_def using m(2,3) by (intro sorted_Float64s) auto
    ultimately show ?thesis by blast
  qed
  from *[OF assms(1)] obtain r where r: "parseChapterSelection pf input av = Inr r"
    "set r = {x. \<exists>p\<in>set (Split input CHR '',''). pf (TrimSpace p) = Some x}" "sorted_wrt f64_lt r"
    by blast
  from *[OF assms(2)] obtain r' where r': "parseChapterSelection pf input' av = Inr r'"
    "set r' = {x. \<exists>p\<in>set (Split input' CHR '',''). pf (TrimSpace p) = Some x}" "sorted_wrt f64_lt r'"
    by blast
  have "r' = r" using r(2,3) r'(2,3) assms(3) by (intro strict_sorted_unique) auto
  then show ?thesis using r r'(1) by blast
qed

text \<open>The inputs "3,1,2,3" and "1,2,3" name the same numbers and give the same selection.\<close>

theorem parseChapterSelection_number_list_witness:
  "\<exists>r. parseChapterSelection decimalLiteral ''3,1,2,3'' [Fin 1, Fin 2] = Inr r
     \<and> set r = {x. \<exists>p\<in>set (Split ''3,1,2,3'' CHR '','').
                    decimalLiteral (TrimSpace p) = Some x}
     \<and> sorted_wrt f64_lt r
     \<and> parseChapterSelection decimalLiteral ''1,2,3'' [Fin 1, Fin 2] = Inr r"
proof -
  have s: "Split ''3,1,2,3'' CHR '','' = [''3'', ''1'', ''2'', ''3'']"
    "Split ''1,2,3'' CHR '','' = [''1'', ''2'', ''3'']" by code_simp+
  have p: "decimalLiteral (TrimSpace ''1'') = Some (Fin 1)"
    "decimalLiteral (TrimSpace ''2'') = Some (Fin 2)"
    "decimalLiteral (TrimSpace ''3'') = Some (Fin 3)" by code_simp+
  have h1: "\<forall>p\<in>set (Split ''3,1,2,3'' CHR '','').
      \<not> Contains p CHR ''-'' \<and> (\<exists>x. decimalLiteral (TrimSpace p) = Some x \<and> \<not> isNaN x)"
    unfolding s using p by (simp add: Contains_def isNaN_def f64_eq_def)
  have h2: "\<forall>p\<in>set (Split ''1,2,3'' CHR '','').
      \<not> Contains p CHR ''-'' \<and> (\<exists>x. decimalLiteral (TrimSpace p) = Some x \<and> \<not> isNaN x)"
    unfolding s using p by (simp add: Contains_def isNaN_def f64_eq_def)
  have h3: "{x. \<exists>p\<in>set (Split ''1,2,3'' CHR '',''). decimalLiteral (TrimSpace p) = Some x}
       = {x. \<exists>p\<in>set (Split ''3,1,2,3'' CHR '',''). decimalLiteral (TrimSpace p) = Some x}"
    unfolding s using p by auto
  show ?thesis by (rule parseChapterSelection_number_list[OF h1 h2 h3])
qed

lemma number_list_example:
  "parseChapterSelection decimalLiteral ''3,1,2,3'' [Fin 1, Fin 2] = Inr [Fin 1, Fin 2, Fin 3]"
  by code_simp

subsection \<open>Malformed range tokens\<close>

text \<open>
  Claim C3. A token of the input has a hyphen and is malformed: splitting it at the hyphens
  does not give two parts, or it gives two and the first or the second is not a number.
  Then \<open>parseChapterSelection\<close> returns an error, whatever the other tokens are, and no
  selection. When the tokens before it are accepted, the error is the one of this token:
  \<open>InvalidRangeFormat\<close> for the wrong number of parts, \<open>InvalidStart\<close> or \<open>InvalidEnd\<close> for
  the bound that is not a number.
\<close>

theorem parseChapterSelection_malformed_range:
  assumes "part \<in> set (Split input CHR '','')" and "Contains part CHR ''-''"
    and "length (Split part CHR ''-'') \<noteq> 2
         \<or> (\<exists>a b. Split part CHR ''-'' = [a, b]
                \<and> (pf (TrimSpace a) = None \<or> pf (TrimSpace b) = None))"
  shows "(\<exists>e. parseChapterSelection pf input av = Inl e)
       \<and> (\<forall>pre post m. Split input CHR '','' = pre @ part # post
                       \<and> parseParts pf av pre [] = Inr m \<longrightarrow>
            parseChapterSelection pf input av =
              Inl (if length (Split part CHR ''-'') \<noteq> 2 then InvalidRangeFormat part
                   else if pf (TrimSpace (Split part CHR ''-'' ! 0)) = None
                        then InvalidStart (Split part CHR ''-'' ! 0)
                        else InvalidEnd (Split part CHR ''-'' ! 1)))"
proof -
  from assms(1) obtain pre post where sp: "Split input CHR '','' = pre @ part # post"
    by (auto simp: in_set_conv_decomp)
  have "\<exists>e. parseParts pf av (pre @ part # post) [] = Inl e"
    by (cases "parseParts pf av pre []")
       (simp_all add: parseParts_append parseParts_bad[OF assms(2,3)] del: parseParts.simps)
  then have 1: "\<exists>e. parseChapterSelection pf input av = Inl e"
    using sp by (auto simp: parseChapterSelection_def)
  have 2: "parseChapterSelection pf input av =
              Inl (if length (Split part CHR ''-'') \<noteq> 2 then InvalidRangeFormat part
                   else if pf (TrimSpace (Split part CHR ''-'' ! 0)) = None
                        then InvalidStart (Split part CHR ''-'' ! 0)
                        else InvalidEnd (Split part CHR ''-'' ! 1))"
    if "Split input CHR '','' = pre' @ part # post'" "parseParts pf av pre' [] = Inr m"
    for pre' post' m
    using that
    by (simp add: parseChapterSelection_def parseParts_append parseParts_bad[OF assms(2,3)]
        del: parseParts.simps)
  show ?thesis using 1 2 by blast
qed

text \<open>
  After the good token "1", the tokens "1-2-3", "-5" and "5-" are refused: the first for its
  format, the second for its start (the empty text), the third for its end.
\<close>

theorem parseChapterSelection_malformed_range_witness:
  "parseChapterSelection decimalLiteral ''1,1-2-3'' [Fin 1] = Inl (InvalidRangeFormat ''1-2-3'')
   \<and> parseChapterSelection decimalLiteral ''1,-5'' [Fin 1] = Inl (InvalidStart '''')
   \<and> parseChapterSelection decimalLiteral ''1,5-'' [Fin 1] = Inl (InvalidEnd '''')"
proof -
  have pre: "parseParts decimalLiteral [Fin 1] [''1''] [] = Inr [(Fin 1, True)]" by code_simp
  have p: "decimalLiteral (TrimSpace '''') = None"
    "decimalLiteral (TrimSpace ''5'') = Some (Fin 5)" by code_simp+
  have c: "Contains ''1-2-3'' CHR ''-''" "Contains ''-5'' CHR ''-''" "Contains ''5-'' CHR ''-''"
    by (simp_all add: Contains_def)
  have s: "Split ''1,1-2-3'' CHR '','' = [''1''] @ ''1-2-3'' # []"
    "Split ''1,-5'' CHR '','' = [''1''] @ ''-5'' # []"
    "Split ''1,5-'' CHR '','' = [''1''] @ ''5-'' # []" by code_simp+
  have d: "Split ''1-2-3'' CHR ''-'' = [''1'', ''2'', ''3'']"
    "Split ''-5'' CHR ''-'' = ['''', ''5'']" "Split ''5-'' CHR ''-'' = [''5'', '''']"
    by code_simp+
  have m: "''1-2-3'' \<in> set (Split ''1,1-2-3'' CHR '','')"
    "''-5'' \<in> set (Split ''1,-5'' CHR '','')" "''5-'' \<in> set (Split ''1,5-'' CHR '','')"
    unfolding s by simp_all
  have b1: "length (Split ''1-2-3'' CHR ''-'') \<noteq> 2
      \<or> (\<exists>a b. Split ''1-2-3'' CHR ''-'' = [a, b]
            \<and> (decimalLiteral (TrimSpace a) = None \<or> decimalLiteral (TrimSpace b) = None))"
    unfolding d by simp
  have b2: "length (Split ''-5'' CHR ''-'') \<noteq> 2
      \<or> (\<exists>a b. Split ''-5'' CHR ''-'' = [a, b]
            \<and> (decimalLiteral (TrimSpace a) = None \<or> decimalLiteral (TrimSpace b) = None))"
    unfolding d using p by simp
  have b3: "length (Split ''5-'' CHR ''-'') \<noteq> 2
      \<or> (\<exists>a b. Split ''5-'' CHR ''-'' = [a, b]
            \<and> (decimalLiteral (TrimSpace a) = None \<or> decimalLiteral (TrimSpace b) = None))"
    unfolding d using p by simp
  from parseChapterSelection_malformed_range[OF m(1) c(1) b1, of "[Fin 1]"] s(1) pre
  have "parseChapterSelection decimalLiteral ''1,1-2-3'' [Fin 1] =
      Inl (if length (Split ''1-2-3'' CHR ''-'') \<noteq> 2 then InvalidRangeFormat ''1-2-3''
           else if decimalLiteral (TrimSpace (Split ''1-2-3'' CHR ''-'' ! 0)) = None
                then InvalidStart (Split ''1-2-3'' CHR ''-'' ! 0)
                else InvalidEnd (Split ''1-2-3'' CHR ''-'' ! 1))"
    by blast
  then have 1: "parseChapterSelection decimalLiteral ''1,1-2-3'' [Fin 1]
           = Inl (InvalidRangeFormat ''1-2-3'')"
    unfolding d by simp
  from parseChapterSelection_malformed_range[OF m(2) c(2) b2, of "[Fin 1]"] s(2) pre
  have "parseChapterSelection decimalLiteral ''1,-5'' [Fin 1] =
      Inl (if length (Split ''-5'' CHR ''-'') \<noteq> 2 then InvalidRangeFormat ''-5''
           else if decimalLiteral (TrimSpace (Split ''-5'' CHR ''-'' ! 0)) = None
                then InvalidStart (Split ''-5'' CHR ''-'' ! 0)
                else InvalidEnd (Split ''-5'' CHR ''-'' ! 1))"
    by blast
  then have 2: "parseChapterSelection decimalLiteral ''1,-5'' [Fin 1] = Inl (InvalidStart '''')"
    unfolding d using p by simp
  from parseChapterSelection_malformed_range[OF m(3) c(3) b3, of "[Fin 1]"] s(3) pre
  have "parseChapterSelection decimalLiteral ''1,5-'' [Fin 1] =
      Inl (if length (Split ''5-'' CHR ''-'') \<noteq> 2 then InvalidRangeFormat ''5-''
           else if decimalLiteral (TrimSpace (Split ''5-'' CHR ''-'' ! 0)) = None
                then InvalidStart (Split ''5-'' CHR ''-'' ! 0)
                else InvalidEnd (Split ''5-'' CHR ''-'' ! 1))"
    by blast
  then have 3: "parseChapterSelection decimalLiteral ''1,5-'' [Fin 1] = Inl (InvalidEnd '''')"
    unfolding d using p by simp
  show ?thesis using 1 2 3 by blast
qed

subsection \<open>Empty selections\<close>

text \<open>
  Claim C8. Every token of the input is a well-formed range \<open>a-b\<close> whose bounds parse to
  \<open>x \<le> y\<close>, and no available chapter lies between them. Then the parser returns
  successfully, with the empty selection, and not an error.
\<close>

theorem parseChapterSelection_empty_selection:
  assumes "\<forall>part\<in>set (Split input CHR '',''). \<exists>a b x y. Split part CHR ''-'' = [a, b]
             \<and> pf (TrimSpace a) = Some x \<and> pf (TrimSpace b) = Some y \<and> f64_le x y
             \<and> (\<forall>v\<in>set av. \<not> (f64_le x v \<and> f64_le v y))"
  shows "parseChapterSelection pf input av = Inr []"
  using parseParts_empty_ranges[OF assms, of "[]"]
  by (simp add: parseChapterSelection_def mapToSlice_def)

text \<open>The range 7-9 over the chapters 1, 2 and 3 is an empty selection.\<close>

theorem parseChapterSelection_empty_selection_witness:
  "parseChapterSelection decimalLiteral ''7-9'' [Fin 1, Fin 2, Fin 3] = Inr []"
proof -
  have s: "Split ''7-9'' CHR '','' = [''7-9'']" "Split ''7-9'' CHR ''-'' = [''7'', ''9'']"
    by code_simp+
  have p: "decimalLiteral (TrimSpace ''7'') = Some (Fin 7)"
    "decimalLiteral (TrimSpace ''9'') = Some (Fin 9)" by code_simp+
  have o: "f64_le (Fin 7) (Fin 9)"
    "\<forall>v\<in>set [Fin 1, Fin 2, Fin 3]. \<not> (f64_le (Fin 7) v \<and> f64_le v (Fin 9))"
    by (simp_all add: f64_le_def f64_eq_def)
  have h: "\<forall>part\<in>set (Split ''7-9'' CHR '','').
      \<exists>a b x y. Split part CHR ''-'' = [a, b]
        \<and> decimalLiteral (TrimSpace a) = Some x \<and> decimalLiteral (TrimSpace b) = Some y
        \<and> f64_le x y
        \<and> (\<forall>v\<in>set [Fin 1, Fin 2, Fin 3]. \<not> (f64_le x v \<and> f64_le v y))"
    unfolding s(1) using s(2) p o by simp
  show ?thesis by (rule parseChapterSelection_empty_selection[OF h])
qed

section \<open>Properties of the resolution of numbers to chapters\<close>

lemma mapaccess_mapassign:
  "mapaccess (mapassign m k v) x = (if f64_eq k x then Some v else mapaccess m x)"
  by (induction m) (auto simp: f64_eq_def)

lemma mapaccess_chapterMapOf_None:
  "\<forall>c\<in>set cs. \<not> f64_eq (Number c) x \<Longrightarrow> mapaccess (chapterMapOf cs m) x = mapaccess m x"
  by (induction cs arbitrary: m) (auto simp: mapaccess_mapassign)

lemma mapaccess_chapterMapOf_Some:
  "mapaccess (chapterMapOf cs m) n = Some c \<Longrightarrow> c \<in> set cs \<or> mapaccess m n = Some c"
proof (induction cs arbitrary: m)
  case Nil
  then show ?case by simp
next
  case (Cons a cs)
  from Cons.IH[of "mapassign m (Number a) a"] Cons.prems
  show ?case by (auto simp: mapaccess_mapassign split: if_splits)
qed

lemma getSelectedChapters_skip:
  "mapaccess cm x = None \<Longrightarrow>
   getSelectedChapters r cm = getSelectedChapters (filter (\<lambda>n. n \<noteq> x) r) cm"
  by (induction r) (auto split: option.splits)

lemma getSelectedChapters_values:
  "c \<in> set (getSelectedChapters r cm) \<Longrightarrow> \<exists>n\<in>set r. mapaccess cm n = Some c"
  by (induction r) (auto split: option.splits)

lemma selectedChapters_skip:
  "\<forall>c\<in>set cs. \<not> f64_eq (Number c) x \<Longrightarrow>
   selectedChapters r cs = selectedChapters (filter (\<lambda>n. n \<noteq> x) r) cs"
  unfolding selectedChapters_def
  by (rule filter_cong) (auto simp: list_ex_iff f64_eq_def)

text \<open>
  Claim C4. A token of the input is a single number: it has no hyphen and parses to \<open>x\<close>.
  When the parser succeeds, \<open>x\<close> is in its result, whatever the available chapters \<open>av\<close> are:
  membership is not checked. Downstream, when no scraped chapter has the number \<open>x\<close>, the
  chapters resolved from the selection are those resolved from the selection without \<open>x\<close>,
  and every resolved chapter is one of the scraped chapters: \<open>x\<close> is left out, with no error
  and no placeholder. This holds for \<open>getSelectedChapters\<close> and for the loop with
  \<^verbatim>\<open>slices.Contains\<close>.
\<close>

theorem single_number_not_checked:
  assumes "part \<in> set (Split input CHR '','')" and "\<not> Contains part CHR ''-''"
    and "pf (TrimSpace part) = Some x"
    and "parseChapterSelection pf input av = Inr r"
    and "\<forall>c\<in>set allChapters. \<not> f64_eq (Number c) x"
  shows "x \<in> set r
       \<and> getSelectedChapters r (chapterMapOf allChapters [])
           = getSelectedChapters (filter (\<lambda>n. n \<noteq> x) r) (chapterMapOf allChapters [])
       \<and> set (getSelectedChapters r (chapterMapOf allChapters [])) \<subseteq> set allChapters
       \<and> selectedChapters r allChapters = selectedChapters (filter (\<lambda>n. n \<noteq> x) r) allChapters
       \<and> (av = getChapterNumbers allChapters \<longrightarrow>
            chapterSelection pf input allChapters
              = Inr (getSelectedChapters (filter (\<lambda>n. n \<noteq> x) r) (chapterMapOf allChapters [])))"
proof -
  from assms(1) obtain pre post where sp: "Split input CHR '','' = pre @ part # post"
    by (auto simp: in_set_conv_decomp)
  from assms(4) obtain m where m: "parseParts pf av (pre @ part # post) [] = Inr m" "r = mapToSlice m"
    using sp by (auto simp: parseChapterSelection_def split: sum.splits)
  from parseParts_single_token[OF m(1) assms(2,3)] have 1: "x \<in> set r"
    using m(2) by (simp add: mapToSlice_def set_Float64s)
  have none: "mapaccess (chapterMapOf allChapters []) x = None"
    using mapaccess_chapterMapOf_None[OF assms(5), of "[]"] by simp
  have 2: "getSelectedChapters r (chapterMapOf allChapters [])
           = getSelectedChapters (filter (\<lambda>n. n \<noteq> x) r) (chapterMapOf allChapters [])"
    by (rule getSelectedChapters_skip[OF none])
  have 3: "set (getSelectedChapters r (chapterMapOf allChapters [])) \<subseteq> set allChapters"
  proof
    fix c assume "c \<in> set (getSelectedChapters r (chapterMapOf allChapters []))"
    then obtain n where "mapaccess (chapterMapOf allChapters []) n = Some c"
      using getSelectedChapters_values by blast
    then show "c \<in> set allChapters" using mapaccess_chapterMapOf_Some by fastforce
  qed
  have 4: "selectedChapters r allChapters = selectedChapters (filter (\<lambda>n. n \<noteq> x) r) allChapters"
    by (rule selectedChapters_skip[OF assms(5)])
  have 5: "chapterSelection pf input allChapters
              = Inr (getSelectedChapters (filter (\<lambda>n. n \<noteq> x) r) (chapterMapOf allChapters []))"
    if "av = getChapterNumbers allChapters"
    using that assms(4) 2 by (simp add: chapterSelection_def)
  show ?thesis using 1 2 3 4 5 by blast
qed

text \<open>
  With the chapters 1 and 2 scraped, the input "2,5" parses to 2 and 5 and resolves to
  chapter 2 alone.
\<close>

theorem single_number_not_checked_witness:
  "Fin 5 \<in> set [Fin 2, Fin 5]
   \<and> chapterSelection decimalLiteral ''2,5''
       [\<lparr>URL = ''/c/1'', Number = Fin 1, Title = ''One'', ImageURLs = [], Folder = ''M/1 One''\<rparr>,
        \<lparr>URL = ''/c/2'', Number = Fin 2, Title = ''Two'', ImageURLs = [], Folder = ''M/2 Two''\<rparr>]
     = Inr [\<lparr>URL = ''/c/2'', Number = Fin 2, Title = ''Two'', ImageURLs = [],
             Folder = ''M/2 Two''\<rparr>]"
proof -
  let ?cs = "[\<lparr>URL = ''/c/1'', Number = Fin 1, Title = ''One'', ImageURLs = [], Folder = ''M/1 One''\<rparr>,
        \<lparr>URL = ''/c/2'', Number = Fin 2, Title = ''Two'', ImageURLs = [], Folder = ''M/2 Two''\<rparr>]"
  have s: "Split ''2,5'' CHR '','' = [''2'', ''5'']" by code_simp
  have m: "''5'' \<in> set (Split ''2,5'' CHR '','')" unfolding s by simp
  have c: "\<not> Contains ''5'' CHR ''-''" by (simp add: Contains_def)
  have p: "decimalLiteral (TrimSpace ''5'') = Some (Fin 5)" by code_simp
  have r: "parseChapterSelection decimalLiteral ''2,5'' (getChapterNumbers ?cs)
           = Inr [Fin 2, Fin 5]" by code_simp
  have n: "\<forall>c\<in>set ?cs. \<not> f64_eq (Number c) (Fin 5)" by (simp add: f64_eq_def)
  have e: "getSelectedChapters (filter (\<lambda>n. n \<noteq> Fin 5) [Fin 2, Fin 5]) (chapterMapOf ?cs [])
           = [\<lparr>URL = ''/c/2'', Number = Fin 2, Title = ''Two'', ImageURLs = [],
               Folder = ''M/2 Two''\<rparr>]"
    by (simp add: f64_eq_def)
  from single_number_not_checked[OF m c p r n]
  have "Fin 5 \<in> set [Fin 2, Fin 5]"
    and "chapterSelection decimalLiteral ''2,5'' ?cs
      = Inr (getSelectedChapters (filter (\<lambda>n. n \<noteq> Fin 5) [Fin 2, Fin 5]) (chapterMapOf ?cs []))"
    by blast+
  then show ?thesis unfolding e by blast
qed

section \<open>Properties of the chapter number\<close>

lemma matchHere_sound:
  assumes "matchHere s \<noteq> []"
  shows "\<exists>ds rest. s = ''Chapter '' @ ds @ rest \<and> ds \<noteq> [] \<and> list_all isDigit ds"
proof -
  from assms have t: "take 8 s = ''Chapter ''" by (auto simp: matchHere_def split: if_splits)
  let ?ds = "takeWhile isDigit (drop 8 s)"
  from assms t have ne: "?ds \<noteq> []" by (auto simp: matchHere_def Let_def split: if_splits)
  have "s = take 8 s @ drop 8 s" by simp
  also have "drop 8 s = ?ds @ dropWhile isDigit (drop 8 s)" by simp
  finally have "s = ''Chapter '' @ ?ds @ dropWhile isDigit (drop 8 s)" using t by simp
  moreover have "list_all isDigit ?ds" by (simp add: list_all_iff) (meson set_takeWhileD)
  ultimately show ?thesis using ne by blast
qed

lemma FindStringSubmatch_sound:
  "FindStringSubmatch s \<noteq> [] \<Longrightarrow>
   \<exists>pre ds rest. s = pre @ ''Chapter '' @ ds @ rest \<and> ds \<noteq> [] \<and> list_all isDigit ds"
proof (induction s)
  case Nil
  then show ?case by (simp add: matchHere_def)
next
  case (Cons c cs)
  show ?case
  proof (cases "matchHere (c # cs) = []")
    case True
    with Cons obtain pre ds rest where
      "cs = pre @ ''Chapter '' @ ds @ rest" "ds \<noteq> []" "list_all isDigit ds" by auto
    then have "c # cs = (c # pre) @ ''Chapter '' @ ds @ rest" by simp
    then show ?thesis using \<open>ds \<noteq> []\<close> \<open>list_all isDigit ds\<close> by blast
  next
    case False
    from matchHere_sound[OF this] show ?thesis by (metis append_Nil)
  qed
qed

text \<open>The other direction: a name that holds a match has its number read.\<close>

lemma matchHere_complete:
  assumes "ds \<noteq> []" "list_all isDigit ds"
  shows "matchHere (''Chapter '' @ ds @ rest) \<noteq> []"
proof -
  obtain d ds' where d: "ds = d # ds'" "isDigit d" using assms by (cases ds) auto
  then have "takeWhile isDigit (ds @ rest) \<noteq> []" by simp
  then show ?thesis by (simp add: matchHere_def Let_def)
qed

lemma FindStringSubmatch_complete:
  assumes "ds \<noteq> []" "list_all isDigit ds"
  shows "FindStringSubmatch (pre @ ''Chapter '' @ ds @ rest) \<noteq> []"
proof (induction pre)
  case Nil
  show ?case using matchHere_complete[OF assms, of rest] by simp
next
  case (Cons c pre)
  then show ?case by simp
qed

text \<open>
  Claim C10. When no substring of the chapter name matches the pattern,
  \<open>getChapterNumber\<close> returns the number 0 and the error \<^verbatim>\<open>nil\<close>; so the callback of
  \<open>getChapters\<close> does not stop, and makes a chapter with the number 0.
\<close>

theorem getChapterNumber_no_match:
  assumes "\<not> (\<exists>pre w post. name = pre @ w @ post \<and> chapterPattern w)"
  shows "getChapterNumber pf name = (Fin 0, None)
       \<and> (\<forall>g manga href nameText titleText. TrimSpace nameText = name \<longrightarrow>
            (\<exists>chapter. onChapter pf g manga href nameText titleText = Inr chapter
                     \<and> Number chapter = Fin 0))"
proof -
  have "FindStringSubmatch name = []"
  proof (rule ccontr)
    assume "FindStringSubmatch name \<noteq> []"
    from FindStringSubmatch_sound[OF this] obtain pre ds rest where
      h: "name = pre @ ''Chapter '' @ ds @ rest" "ds \<noteq> []" "list_all isDigit ds" by blast
    then have "chapterPattern (''Chapter '' @ ds)" by (auto simp: chapterPattern_def)
    moreover have "name = pre @ (''Chapter '' @ ds) @ rest" using h(1) by simp
    ultimately show False using assms by blast
  qed
  then have 1: "getChapterNumber pf name = (Fin 0, None)" by (simp add: getChapterNumber_def)
  then show ?thesis by (simp add: onChapter_def Let_def)
qed

text \<open>The name "Prologue" has no chapter number and gets the number 0.\<close>

theorem getChapterNumber_no_match_witness:
  "getChapterNumber decimalLiteral ''Prologue'' = (Fin 0, None)"
proof -
  have C: "CHR ''C'' \<in> set w" if "chapterPattern w" for w
    using that by (auto simp: chapterPattern_def)
  have h: "\<not> (\<exists>pre w post. ''Prologue'' = pre @ w @ post \<and> chapterPattern w)"
  proof
    assume "\<exists>pre w post. ''Prologue'' = pre @ w @ post \<and> chapterPattern w"
    then obtain pre w post where e: "''Prologue'' = pre @ w @ post" and "chapterPattern w"
      by blast
    then have "CHR ''C'' \<in> set (pre @ w @ post)" using C by simp
    then have "CHR ''C'' \<in> set ''Prologue''" using e by simp
    then show False by simp
  qed
  from getChapterNumber_no_match[OF h, of decimalLiteral] show ?thesis by blast
qed

section \<open>Properties of paths\<close>

lemma Split_app: "Split (a @ sep # b) sep = Split a sep @ Split b sep"
  by (induction a) (auto simp: Split_nonempty split: list.splits)

lemma strings_Join_snoc:
  "xs \<noteq> [] \<Longrightarrow> strings_Join (xs @ [e]) sep = strings_Join xs sep @ sep @ e"
proof (induction xs)
  case Nil
  then show ?case by simp
next
  case (Cons x xs)
  then show ?case by (cases xs) auto
qed

lemma cleanStep_plain: "plain e \<Longrightarrow> cleanStep r out e = e # out"
  by (simp add: cleanStep_def plain_def)

lemma Split_plain_tail:
  "\<forall>e\<in>set es. plain e \<Longrightarrow>
   Split (p @ concat (map (\<lambda>e. CHR ''/'' # e) es)) CHR ''/'' = Split p CHR ''/'' @ es"
proof (induction es rule: rev_induct)
  case Nil
  then show ?case by simp
next
  case (snoc e es)
  have e: "Split e CHR ''/'' = [e]" using snoc.prems by (simp add: Split_no_sep plain_def)
  have "Split ((p @ concat (map (\<lambda>e. CHR ''/'' # e) es)) @ CHR ''/'' # e) CHR ''/''
        = Split (p @ concat (map (\<lambda>e. CHR ''/'' # e) es)) CHR ''/'' @ [e]"
    unfolding Split_app e by (rule refl)
  then show ?case using snoc by simp
qed

lemma foldl_cleanStep_plain:
  "\<forall>e\<in>set es. plain e \<Longrightarrow> foldl (cleanStep r) out es = rev es @ out"
  by (induction es arbitrary: out) (simp_all add: cleanStep_plain)

lemma strings_Join_plain_tail:
  "xs \<noteq> [] \<Longrightarrow>
   strings_Join (xs @ es) ''/'' = strings_Join xs ''/'' @ concat (map (\<lambda>e. CHR ''/'' # e) es)"
proof (induction es rule: rev_induct)
  case Nil
  then show ?case by simp
next
  case (snoc e es)
  have "strings_Join ((xs @ es) @ [e]) ''/'' = strings_Join (xs @ es) ''/'' @ ''/'' @ e"
    using snoc.prems by (intro strings_Join_snoc) simp
  then show ?case using snoc by simp
qed

lemma strings_Join_concat:
  "strings_Join (p # es) ''/'' = p @ concat (map (\<lambda>e. CHR ''/'' # e) es)"
  using strings_Join_plain_tail[of "[p]" es] by simp

text \<open>
  Joining a clean directory, other than the root and the current directory, with plain
  elements puts a slash before each of them.
\<close>

lemma Join_plain:
  assumes "Clean loc = loc" "loc \<noteq> ''/''" "loc \<noteq> ''.''" "\<forall>e\<in>set es. plain e"
  shows "Join (loc # es) = loc @ concat (map (\<lambda>e. CHR ''/'' # e) es)"
proof -
  have ne: "loc \<noteq> []" using assms(1) by (auto simp: Clean_def)
  define r where "r = (hd loc = CHR ''/'')"
  define S where "S = rev (foldl (cleanStep r) [] (Split loc CHR ''/''))"
  define p where "p = loc @ concat (map (\<lambda>e. CHR ''/'' # e) es)"
  have f: "rev (foldl (cleanStep r) [] (Split p CHR ''/'')) = S @ es"
    unfolding p_def S_def Split_plain_tail[OF assms(4)]
    by (simp add: foldl_cleanStep_plain[OF assms(4)])
  have hd: "(hd p = CHR ''/'') = r" using ne by (simp add: r_def p_def)
  have pne: "p \<noteq> []" using ne by (simp add: p_def)
  have cl: "Clean loc = (if r then CHR ''/'' # strings_Join S ''/''
                   else if S = [] then ''.'' else strings_Join S ''/'')"
    using ne by (simp add: Clean_def Let_def r_def S_def)
  have S: "S \<noteq> []"
  proof
    assume "S = []"
    with cl have "Clean loc = (if r then ''/'' else ''.'')" by simp
    then show False using assms(1,2,3) by (cases r) simp_all
  qed
  have "Clean p = (if r then CHR ''/'' # strings_Join (S @ es) ''/''
                    else strings_Join (S @ es) ''/'')"
  proof (cases r)
    case True
    with hd have h: "hd p = CHR ''/''" by blast
    from f True have "rev (foldl (cleanStep True) [] (Split p CHR ''/'')) = S @ es" by simp
    then show ?thesis unfolding Clean_def Let_def using True h pne by simp
  next
    case False
    with hd have h: "hd p \<noteq> CHR ''/''" by blast
    from f False have f': "rev (foldl (cleanStep False) [] (Split p CHR ''/'')) = S @ es"
      by simp
    then have "foldl (cleanStep False) [] (Split p CHR ''/'') \<noteq> []" using S by auto
    then show ?thesis unfolding Clean_def Let_def using False h pne f' S by simp
  qed
  also have "\<dots> = Clean loc @ concat (map (\<lambda>e. CHR ''/'' # e) es)"
    unfolding strings_Join_plain_tail[OF S] cl using S by simp
  finally have "Clean p = p" using assms(1) by (simp add: p_def)
  moreover have "Join (loc # es) = Clean (strings_Join (loc # es) ''/'')"
    using ne by (simp add: Join_def)
  ultimately show ?thesis unfolding strings_Join_concat p_def by simp
qed

lemma Join_three:
  assumes "Clean loc = loc" "loc \<noteq> ''/''" "loc \<noteq> ''.''" "plain mt" "plain nm"
  shows "Join [loc, mt, nm] = loc @ ''/'' @ mt @ ''/'' @ nm"
  using Join_plain[OF assms(1,2,3), of "[mt, nm]"] assms(4,5) by simp

section \<open>Properties of the image file names\<close>

lemma digit_0: "digit 0 = CHR ''0''"
  unfolding digit_def by code_simp

lemma digit_less: "a < 10 \<Longrightarrow> b < 10 \<Longrightarrow> (digit a < digit b) = (a < b)"
  by (simp add: digit_def less_char_def)

lemma digit_eq:
  assumes "a < 10" "b < 10"
  shows "(digit a = digit b) = (a = b)"
proof
  assume "digit a = digit b"
  then have "(of_char (char_of (48 + a)) :: nat) = of_char (char_of (48 + b))"
    by (simp add: digit_def)
  then show "a = b" using assms by simp
next
  assume "a = b"
  then show "digit a = digit b" by simp
qed

text \<open>Below 1000 the verb \<^verbatim>\<open>%03d\<close> writes the hundreds, the tens and the units.\<close>

lemma zeroPad3:
  assumes "n < 1000"
  shows "zeroPad 3 (digitsOf n) = [digit (n div 100), digit (n div 10 mod 10), digit (n mod 10)]"
proof -
  consider "n < 10" | "10 \<le> n" "n < 100" | "100 \<le> n" using assms by linarith
  then show ?thesis
  proof cases
    case 1
    then show ?thesis by (simp add: digitsOf.simps zeroPad_def digit_0 numeral_3_eq_3)
  next
    case 2
    then have "n div 10 < 10" "n div 100 = 0" by auto
    with 2 show ?thesis
      by (simp add: digitsOf.simps[of n] digitsOf.simps[of "n div 10"] zeroPad_def digit_0)
  next
    case 3
    then have "\<not> n div 10 < 10" "n div 10 div 10 < 10" "n div 10 div 10 = n div 100"
      using assms by (auto simp: div_mult2_eq[symmetric])
    with 3 show ?thesis
      by (simp add: digitsOf.simps[of n] digitsOf.simps[of "n div 10"]
          digitsOf.simps[of "n div 100"] zeroPad_def)
  qed
qed

lemma digits_lex:
  fixes m n :: nat
  assumes "m < n"
  shows "m div 100 < n div 100
      \<or> (m div 100 = n div 100 \<and> (m div 10 mod 10 < n div 10 mod 10
          \<or> (m div 10 mod 10 = n div 10 mod 10 \<and> m mod 10 < n mod 10)))"
proof -
  define a where "a = m div 100"
  define b where "b = m div 10 mod 10"
  define c where "c = m mod 10"
  define a' where "a' = n div 100"
  define b' where "b' = n div 10 mod 10"
  define c' where "c' = n mod 10"
  have h: "m div 10 div 10 = m div 100" "n div 10 div 10 = n div 100"
    by (simp_all add: div_mult2_eq[symmetric])
  have m: "m = 100 * a + 10 * b + c"
    unfolding a_def b_def c_def
    using div_mult_mod_eq[of m 10] div_mult_mod_eq[of "m div 10" 10] h(1) by linarith
  have n: "n = 100 * a' + 10 * b' + c'"
    unfolding a'_def b'_def c'_def
    using div_mult_mod_eq[of n 10] div_mult_mod_eq[of "n div 10" 10] h(2) by linarith
  have r: "b < 10" "c < 10" "b' < 10" "c' < 10"
    by (simp_all add: b_def c_def b'_def c'_def)
  have "a < a' \<or> (a = a' \<and> (b < b' \<or> (b = b' \<and> c < c')))"
    using assms m n r by linarith
  then show ?thesis by (simp add: a_def b_def c_def a'_def b'_def c'_def)
qed

text \<open>Names of three digits are ordered as their numbers are, whatever follows the digits.\<close>

lemma pad3_less:
  assumes "m < n" "n < 1000"
  shows "zeroPad 3 (digitsOf m) @ e < zeroPad 3 (digitsOf n) @ e'"
proof -
  have m: "m < 1000" using assms by simp
  have b: "m div 100 < 10" "n div 100 < 10" "m div 10 mod 10 < 10" "n div 10 mod 10 < 10"
    "m mod 10 < 10" "n mod 10 < 10" using assms by auto
  note d = digit_less[OF b(1,2)] digit_less[OF b(3,4)] digit_less[OF b(5,6)]
        digit_eq[OF b(1,2)] digit_eq[OF b(3,4)] digit_eq[OF b(5,6)]
  from digits_lex[OF assms(1)] show ?thesis
    unfolding zeroPad3[OF m] zeroPad3[OF assms(2)] append_Cons append_Nil Cons_less_Cons d
    by blast
qed

text \<open>
  \<open>Ext\<close> is empty when the last element of the path has no dot; otherwise it is the end of
  the path from the last dot on, with the dot.
\<close>

lemma extScan_cases:
  "(extScan rs acc = [] \<and> (\<forall>a b. rs = a @ CHR ''.'' # b \<longrightarrow> CHR ''/'' \<in> set a))
   \<or> (\<exists>a b. rs = a @ CHR ''.'' # b \<and> CHR ''.'' \<notin> set a \<and> CHR ''/'' \<notin> set a
          \<and> extScan rs acc = CHR ''.'' # rev a @ acc)"
proof (induction rs arbitrary: acc)
  case Nil
  then show ?case by simp
next
  case (Cons c cs)
  show ?case
  proof (cases "c = CHR ''/''")
    case True
    then show ?thesis by (auto simp: Cons_eq_append_conv)
  next
    case False
    note nsl = this
    show ?thesis
    proof (cases "c = CHR ''.''")
      case True
      then have "c # cs = [] @ CHR ''.'' # cs \<and> extScan (c # cs) acc = CHR ''.'' # rev [] @ acc"
        by simp
      then show ?thesis by (metis empty_iff list.set(1))
    next
      case False
      from Cons.IH[of "c # acc"] show ?thesis
      proof
        assume h: "extScan cs (c # acc) = []
                   \<and> (\<forall>a b. cs = a @ CHR ''.'' # b \<longrightarrow> CHR ''/'' \<in> set a)"
        have "\<forall>a b. c # cs = a @ CHR ''.'' # b \<longrightarrow> CHR ''/'' \<in> set a"
          using h False by (auto simp: Cons_eq_append_conv)
        then show ?thesis using h False nsl by simp
      next
        assume "\<exists>a b. cs = a @ CHR ''.'' # b \<and> CHR ''.'' \<notin> set a \<and> CHR ''/'' \<notin> set a
          \<and> extScan cs (c # acc) = CHR ''.'' # rev a @ c # acc"
        then obtain a b where h: "cs = a @ CHR ''.'' # b" "CHR ''.'' \<notin> set a"
          "CHR ''/'' \<notin> set a" "extScan cs (c # acc) = CHR ''.'' # rev a @ c # acc" by blast
        have "c # cs = (c # a) @ CHR ''.'' # b \<and> CHR ''.'' \<notin> set (c # a)
          \<and> CHR ''/'' \<notin> set (c # a) \<and> extScan (c # cs) acc = CHR ''.'' # rev (c # a) @ acc"
          using h False nsl by simp
        then show ?thesis by blast
      qed
    qed
  qed
qed

lemma Ext_cases:
  "(Ext path = [] \<and> (\<forall>pre e. path = pre @ CHR ''.'' # e \<longrightarrow> CHR ''/'' \<in> set e))
   \<or> (\<exists>pre e. path = pre @ CHR ''.'' # e \<and> CHR ''.'' \<notin> set e \<and> CHR ''/'' \<notin> set e
          \<and> Ext path = CHR ''.'' # e)"
proof -
  from extScan_cases[of "rev path" "[]"] show ?thesis
  proof
    assume h: "extScan (rev path) [] = []
               \<and> (\<forall>a b. rev path = a @ CHR ''.'' # b \<longrightarrow> CHR ''/'' \<in> set a)"
    have "CHR ''/'' \<in> set e" if "path = pre @ CHR ''.'' # e" for pre e
    proof -
      from that have "rev path = rev e @ CHR ''.'' # rev pre" by simp
      with h have "CHR ''/'' \<in> set (rev e)" by blast
      then show ?thesis by simp
    qed
    then show ?thesis using h by (simp add: Ext_def)
  next
    assume "\<exists>a b. rev path = a @ CHR ''.'' # b \<and> CHR ''.'' \<notin> set a \<and> CHR ''/'' \<notin> set a
          \<and> extScan (rev path) [] = CHR ''.'' # rev a @ []"
    then obtain a b where h: "rev path = a @ CHR ''.'' # b" "CHR ''.'' \<notin> set a"
      "CHR ''/'' \<notin> set a" "extScan (rev path) [] = CHR ''.'' # rev a @ []" by blast
    from h(1) have "rev (rev path) = rev (a @ CHR ''.'' # b)" by simp
    then have "path = rev b @ CHR ''.'' # rev a" by simp
    then show ?thesis using h by (auto simp: Ext_def)
  qed
qed

lemma imageNames_nth:
  "i < length urls \<Longrightarrow> imageNames urls ! i = imageName i (urls ! i)"
  by (simp add: imageNames_def nth_enumerate_eq)

lemma digit_not_dot_slash:
  assumes "d < 10"
  shows "digit d \<noteq> CHR ''.''" "digit d \<noteq> CHR ''/''"
proof -
  have o: "(of_char (digit d) :: nat) = 48 + d" using assms by (simp add: digit_def)
  show "digit d \<noteq> CHR ''.''"
  proof
    assume "digit d = CHR ''.''"
    then have "(of_char (digit d) :: nat) = of_char CHR ''.''" by simp
    then show False unfolding o by simp
  qed
  show "digit d \<noteq> CHR ''/''"
  proof
    assume "digit d = CHR ''/''"
    then have "(of_char (digit d) :: nat) = of_char CHR ''/''" by simp
    then show False unfolding o by simp
  qed
qed

lemma Ext_no_slash: "CHR ''/'' \<notin> set (Ext path)"
  using Ext_cases[of path] by auto

lemma imageName_plain:
  assumes "i + 1 < 1000"
  shows "plain (imageName i url)"
proof -
  let ?n = "i + 1"
  have b: "?n div 100 < 10" "?n div 10 mod 10 < 10" "?n mod 10 < 10" using assms by auto
  have n: "imageName i url
     = digit (?n div 100) # digit (?n div 10 mod 10) # digit (?n mod 10) # Ext url"
    using assms by (simp add: imageName_def Sprintf_03d_def nat_add_distrib zeroPad3)
  show ?thesis
    unfolding n plain_def
    using digit_not_dot_slash[OF b(1)] digit_not_dot_slash[OF b(2)] digit_not_dot_slash[OF b(3)]
      Ext_no_slash[of url]
    by simp
qed

lemma filename_path:
  assumes "i + 1 < 1000" "Clean dir = dir" "dir \<noteq> ''/''" "dir \<noteq> ''.''"
  shows "filename dir i url = dir @ ''/'' @ imageName i url"
  unfolding filename_def
  using Join_plain[OF assms(2,3,4), of "[imageName i url]"] imageName_plain[OF assms(1), of url]
  by simp

text \<open>
  \<open>Ext\<close> written out: the end of the path from a dot that no dot and no slash follows, and
  nothing when every dot is followed by a slash. It looks at the last element only, where
  it is the extension as the specification has it.
\<close>

lemma extScan_dot:
  "CHR ''.'' \<notin> set a \<Longrightarrow> CHR ''/'' \<notin> set a \<Longrightarrow>
   extScan (a @ CHR ''.'' # b) acc = CHR ''.'' # rev a @ acc"
  by (induction a arbitrary: acc) auto

lemma Ext_dot:
  assumes "CHR ''.'' \<notin> set s" "CHR ''/'' \<notin> set s"
  shows "Ext (pre @ CHR ''.'' # s) = CHR ''.'' # s"
  using extScan_dot[of "rev s" "rev pre" "[]"] assms by (simp add: Ext_def)

lemma Ext_none:
  assumes "\<forall>pre s. path = pre @ CHR ''.'' # s \<longrightarrow> CHR ''/'' \<in> set s"
  shows "Ext path = []"
  using Ext_cases[of path] assms by blast

lemma extScan_slash: "extScan (a @ CHR ''/'' # b) acc = extScan a acc"
  by (induction a arbitrary: acc) auto

lemma extScan_no_dot: "CHR ''.'' \<notin> set a \<Longrightarrow> extScan a acc = []"
  by (induction a arbitrary: acc) auto

lemma Ext_after_slash: "Ext (q @ CHR ''/'' # name) = Ext name"
  using extScan_slash[of "rev name" "rev q" "[]"] by (simp add: Ext_def)

lemma last_Split:
  "CHR ''/'' \<notin> set name \<Longrightarrow> last (Split (q @ CHR ''/'' # name) CHR ''/'') = name"
  by (simp add: Split_app Split_no_sep)

lemma Ext_name:
  assumes "CHR ''/'' \<notin> set name"
  shows "Ext name = (if CHR ''.'' \<in> set name
                     then CHR ''.'' # rev (takeWhile (\<lambda>c. c \<noteq> CHR ''.'') (rev name)) else [])"
proof (cases "CHR ''.'' \<in> set name")
  case True
  then obtain x s where n: "name = x @ CHR ''.'' # s" "CHR ''.'' \<notin> set s"
    using split_list_last by fastforce
  have s: "CHR ''/'' \<notin> set s" using assms n(1) by simp
  have "takeWhile (\<lambda>c. c \<noteq> CHR ''.'') (rev name) = rev s"
  proof -
    have "c \<noteq> CHR ''.''" if "c \<in> set (rev s)" for c using n(2) that by auto
    then have "takeWhile (\<lambda>c. c \<noteq> CHR ''.'') (rev s @ CHR ''.'' # rev x)
               = rev s @ takeWhile (\<lambda>c. c \<noteq> CHR ''.'') (CHR ''.'' # rev x)"
      by (rule takeWhile_append2)
    then have "takeWhile (\<lambda>c. c \<noteq> CHR ''.'') (rev s @ CHR ''.'' # rev x) = rev s"
      by simp
    then show ?thesis unfolding n(1) by simp
  qed
  then show ?thesis using True Ext_dot[OF n(2) s, of x] n(1) by simp
next
  case False
  then show ?thesis by (simp add: Ext_def extScan_no_dot)
qed

lemma Ext_pathExtension: "Ext path = pathExtension path"
proof (cases "CHR ''/'' \<in> set path")
  case True
  then obtain q name where p: "path = q @ CHR ''/'' # name" "CHR ''/'' \<notin> set name"
    using split_list_last by fastforce
  show ?thesis
    unfolding pathExtension_def p(1) last_Split[OF p(2)] Ext_after_slash Let_def
    by (rule Ext_name[OF p(2)])
next
  case False
  then show ?thesis
    unfolding pathExtension_def Let_def by (simp add: Split_no_sep Ext_name)
qed

lemma suffix_urlPath:
  assumes "CHR ''?'' \<notin> set url" "CHR ''#'' \<notin> set url"
  shows "\<exists>a. url = a @ urlPath url"
proof -
  have "\<forall>c\<in>set url. c \<noteq> CHR ''#''" "\<forall>c\<in>set url. c \<noteq> CHR ''?''" using assms by auto
  then have t: "takeWhile (\<lambda>c. c \<noteq> CHR ''#'') url = url"
    "takeWhile (\<lambda>c. c \<noteq> CHR ''?'') url = url"
    by (simp_all add: takeWhile_eq_all_conv)
  define rest where "rest = (if CHR '':'' \<in> set (takeWhile (\<lambda>c. c \<noteq> CHR ''/'') url)
                  then tl (dropWhile (\<lambda>c. c \<noteq> CHR '':'') url) else url)"
  have u: "urlPath url
           = (if take 2 rest = ''//'' then dropWhile (\<lambda>c. c \<noteq> CHR ''/'') (drop 2 rest)
              else rest)"
    by (simp add: urlPath_def t rest_def Let_def)
  have dw: "\<exists>a. xs = a @ dropWhile P xs" for P and xs :: string
    by (metis takeWhile_dropWhile_id)
  have tl: "\<exists>a. xs = a @ tl xs" for xs :: string
    by (cases xs) auto
  have dr: "\<exists>a. xs = a @ drop n xs" for n and xs :: string
    by (metis append_take_drop_id)
  have 1: "\<exists>a. url = a @ rest"
  proof (cases "CHR '':'' \<in> set (takeWhile (\<lambda>c. c \<noteq> CHR ''/'') url)")
    case True
    obtain a where a: "url = a @ dropWhile (\<lambda>c. c \<noteq> CHR '':'') url" using dw by blast
    obtain b where b: "dropWhile (\<lambda>c. c \<noteq> CHR '':'') url
                       = b @ tl (dropWhile (\<lambda>c. c \<noteq> CHR '':'') url)" using tl by blast
    have "url = (a @ b) @ rest" using a b True by (simp add: rest_def)
    then show ?thesis by blast
  next
    case False
    then show ?thesis by (simp add: rest_def)
  qed
  have 2: "\<exists>b. rest = b @ urlPath url"
  proof (cases "take 2 rest = ''//''")
    case True
    obtain a where a: "rest = a @ drop 2 rest" using dr by blast
    obtain b where b: "drop 2 rest = b @ dropWhile (\<lambda>c. c \<noteq> CHR ''/'') (drop 2 rest)"
      using dw by blast
    have "rest = (a @ b) @ urlPath url" using a b True u by simp
    then show ?thesis by blast
  next
    case False
    then show ?thesis using u by simp
  qed
  from 1 2 obtain a b where "url = a @ rest" "rest = b @ urlPath url" by blast
  then have "url = (a @ b) @ urlPath url" by simp
  then show ?thesis by blast
qed

lemma Ext_urlPath:
  assumes "CHR ''?'' \<notin> set url" "CHR ''#'' \<notin> set url" "CHR ''/'' \<in> set (urlPath url)"
  shows "Ext url = urlPathExtension url"
proof -
  obtain a where a: "url = a @ urlPath url" using suffix_urlPath[OF assms(1,2)] by blast
  obtain q name where p: "urlPath url = q @ CHR ''/'' # name"
    using assms(3) split_list by fastforce
  have "Ext url = Ext ((a @ q) @ CHR ''/'' # name)" using a p by simp
  also have "\<dots> = Ext name" by (rule Ext_after_slash)
  also have "\<dots> = Ext (urlPath url)" unfolding p by (rule Ext_after_slash[symmetric])
  finally show ?thesis by (simp add: urlPathExtension_def Ext_pathExtension)
qed

text \<open>
  Claim C6, as the program has it. A chapter has at most 999 images. The file of the image
  at index \<open>i\<close>, the image number \<open>i + 1\<close>, is named by the three decimal digits of \<open>i + 1\<close>,
  zeros included, followed by the extension that \<^verbatim>\<open>filepath.Ext\<close> finds in the URL taken as a
  whole: nothing when every dot of the URL has a slash after it, and otherwise the end of the
  URL from its last dot on, which no slash follows. For a URL with no query and no fragment
  whose path has a slash, this is the extension of the path of the URL. The name of every
  later image is greater in the lexicographic order of the bytes, so that the order of the
  names is the order of the images. In a clean directory other than \<^verbatim>\<open>/\<close> and \<^verbatim>\<open>.\<close> the file
  is the directory, a slash and this name.
\<close>

theorem image_file_names:
  assumes "length imageURLs \<le> 999" and "i < length imageURLs"
  shows "((\<forall>pre s. imageURLs ! i = pre @ CHR ''.'' # s \<longrightarrow> CHR ''/'' \<in> set s) \<longrightarrow>
            imageNames imageURLs ! i
              = [digit ((i + 1) div 100), digit ((i + 1) div 10 mod 10), digit ((i + 1) mod 10)])
       \<and> (\<forall>pre s. imageURLs ! i = pre @ CHR ''.'' # s \<and> CHR ''.'' \<notin> set s \<and> CHR ''/'' \<notin> set s \<longrightarrow>
            imageNames imageURLs ! i
              = [digit ((i + 1) div 100), digit ((i + 1) div 10 mod 10), digit ((i + 1) mod 10)]
                @ CHR ''.'' # s)
       \<and> (CHR ''?'' \<notin> set (imageURLs ! i) \<and> CHR ''#'' \<notin> set (imageURLs ! i)
            \<and> CHR ''/'' \<in> set (urlPath (imageURLs ! i)) \<longrightarrow>
            imageNames imageURLs ! i
              = [digit ((i + 1) div 100), digit ((i + 1) div 10 mod 10), digit ((i + 1) mod 10)]
                @ urlPathExtension (imageURLs ! i))
       \<and> (\<forall>j. i < j \<and> j < length imageURLs \<longrightarrow>
            imageNames imageURLs ! i < imageNames imageURLs ! j)
       \<and> (Clean dir = dir \<and> dir \<noteq> ''/'' \<and> dir \<noteq> ''.'' \<longrightarrow>
            filename dir i (imageURLs ! i) = dir @ ''/'' @ imageNames imageURLs ! i)"
proof -
  define ds where
    "ds = [digit ((i + 1) div 100), digit ((i + 1) div 10 mod 10), digit ((i + 1) mod 10)]"
  define url where "url = imageURLs ! i"
  have n: "imageNames imageURLs ! i = zeroPad 3 (digitsOf (i + 1)) @ Ext url"
    using assms(2)
    by (simp add: imageNames_nth imageName_def Sprintf_03d_def nat_add_distrib url_def)
  have z: "zeroPad 3 (digitsOf (i + 1)) = ds"
    unfolding ds_def using assms by (intro zeroPad3) simp
  have 0: "imageNames imageURLs ! i = ds @ Ext url" unfolding n z by (rule refl)
  have a: "imageNames imageURLs ! i = ds"
    if "\<forall>pre s. url = pre @ CHR ''.'' # s \<longrightarrow> CHR ''/'' \<in> set s"
    unfolding 0 Ext_none[OF that] by simp
  have b: "imageNames imageURLs ! i = ds @ CHR ''.'' # s"
    if "url = pre @ CHR ''.'' # s" "CHR ''.'' \<notin> set s" "CHR ''/'' \<notin> set s" for pre s
    unfolding 0 that(1) Ext_dot[OF that(2,3)] by (rule refl)
  have c: "imageNames imageURLs ! i = ds @ urlPathExtension url"
    if "CHR ''?'' \<notin> set url" "CHR ''#'' \<notin> set url" "CHR ''/'' \<in> set (urlPath url)"
    unfolding 0 Ext_urlPath[OF that] by (rule refl)
  have 2: "imageNames imageURLs ! i < imageNames imageURLs ! j"
    if "i < j" "j < length imageURLs" for j
  proof -
    have "imageNames imageURLs ! j = zeroPad 3 (digitsOf (j + 1)) @ Ext (imageURLs ! j)"
      using that(2) by (simp add: imageNames_nth imageName_def Sprintf_03d_def nat_add_distrib)
    then show ?thesis unfolding n using that assms(1) by (simp add: pad3_less)
  qed
  have 3: "filename dir i url = dir @ ''/'' @ imageNames imageURLs ! i"
    if "Clean dir = dir" "dir \<noteq> ''/''" "dir \<noteq> ''.''"
  proof -
    have "i + 1 < 1000" using assms by simp
    from filename_path[OF this that] show ?thesis
      using assms(2) by (simp add: imageNames_nth url_def)
  qed
  show ?thesis using a b c 2 3 unfolding ds_def url_def by blast
qed

text \<open>
  Of seven images the last is "007.jpg", and it comes after the first, whose URL has no
  extension: "001".
\<close>

theorem image_file_names_witness:
  "imageNames [''https://cdn.example/m/1'', ''https://cdn.example/m/2.png'',
               ''https://cdn.example/m/3.png'', ''https://cdn.example/m/4.png'',
               ''https://cdn.example/m/5.png'', ''https://cdn.example/m/6.png'',
               ''https://cdn.example/m/last.jpg''] ! 6 = ''007.jpg''
   \<and> ''007'' @ urlPathExtension ''https://cdn.example/m/last.jpg'' = ''007.jpg''
   \<and> imageNames [''https://cdn.example/m/1'', ''https://cdn.example/m/2.png'',
               ''https://cdn.example/m/3.png'', ''https://cdn.example/m/4.png'',
               ''https://cdn.example/m/5.png'', ''https://cdn.example/m/6.png'',
               ''https://cdn.example/m/last.jpg''] ! 0 = ''001''
   \<and> imageNames [''https://cdn.example/m/1'', ''https://cdn.example/m/2.png'',
               ''https://cdn.example/m/3.png'', ''https://cdn.example/m/4.png'',
               ''https://cdn.example/m/5.png'', ''https://cdn.example/m/6.png'',
               ''https://cdn.example/m/last.jpg''] ! 0
     < imageNames [''https://cdn.example/m/1'', ''https://cdn.example/m/2.png'',
               ''https://cdn.example/m/3.png'', ''https://cdn.example/m/4.png'',
               ''https://cdn.example/m/5.png'', ''https://cdn.example/m/6.png'',
               ''https://cdn.example/m/last.jpg''] ! 6
   \<and> filename ''/dl/M/005 T'' 6 ''https://cdn.example/m/last.jpg'' = ''/dl/M/005 T/007.jpg''"
proof -
  let ?urls = "[''https://cdn.example/m/1'', ''https://cdn.example/m/2.png'',
               ''https://cdn.example/m/3.png'', ''https://cdn.example/m/4.png'',
               ''https://cdn.example/m/5.png'', ''https://cdn.example/m/6.png'',
               ''https://cdn.example/m/last.jpg'']"
  let ?dir = "''/dl/M/005 T''"
  have l: "length ?urls \<le> 999" "6 < length ?urls" "0 < length ?urls" by simp_all
  note t6 = image_file_names[OF l(1,2), where dir = ?dir]
  note t0 = image_file_names[OF l(1,3), where dir = ?dir]
  have u6: "?urls ! 6 = ''https://cdn.example/m/last.jpg''" by simp
  have u0: "?urls ! 0 = ''https://cdn.example/m/1''" by simp
  have d6: "[digit ((6 + 1) div 100), digit ((6 + 1) div 10 mod 10), digit ((6 + 1) mod 10)]
            = ''007''" by code_simp
  have d0: "[digit ((0 + 1) div 100), digit ((0 + 1) div 10 mod 10), digit ((0 + 1) mod 10)]
            = ''001''" by code_simp
  have s: "''https://cdn.example/m/last.jpg'' = ''https://cdn.example/m/last'' @ CHR ''.'' # ''jpg''"
    "CHR ''.'' \<notin> set ''jpg''" "CHR ''/'' \<notin> set ''jpg''" by simp_all
  from t6[unfolded u6 d6] s
  have 1: "imageNames ?urls ! 6 = ''007'' @ CHR ''.'' # ''jpg''" by blast
  have q: "CHR ''?'' \<notin> set ''https://cdn.example/m/last.jpg''"
    "CHR ''#'' \<notin> set ''https://cdn.example/m/last.jpg''"
    "CHR ''/'' \<in> set (urlPath ''https://cdn.example/m/last.jpg'')" by code_simp+
  from t6[unfolded u6 d6] q
  have "imageNames ?urls ! 6 = ''007'' @ urlPathExtension ''https://cdn.example/m/last.jpg''"
    by blast
  with 1 have 2: "''007'' @ urlPathExtension ''https://cdn.example/m/last.jpg'' = ''007.jpg''"
    by simp
  have e0: "Ext ''https://cdn.example/m/1'' = []" by code_simp
  have nd: "\<forall>pre s. ''https://cdn.example/m/1'' = pre @ CHR ''.'' # s \<longrightarrow> CHR ''/'' \<in> set s"
    using Ext_cases[of "''https://cdn.example/m/1''"] unfolding e0 by blast
  from t0[unfolded u0 d0] nd have 3: "imageNames ?urls ! 0 = ''001''" by blast
  from t0
  have "\<forall>j. 0 < j \<and> j < length ?urls \<longrightarrow> imageNames ?urls ! 0 < imageNames ?urls ! j"
    by blast
  then have 4: "imageNames ?urls ! 0 < imageNames ?urls ! 6" using l(2) by simp
  have c: "Clean ?dir = ?dir" "?dir \<noteq> ''/''" "?dir \<noteq> ''.''" by code_simp+
  from t6[unfolded u6] c
  have "filename ?dir 6 ''https://cdn.example/m/last.jpg'' = ?dir @ ''/'' @ imageNames ?urls ! 6"
    by blast
  then have 5: "filename ?dir 6 ''https://cdn.example/m/last.jpg'' = ''/dl/M/005 T/007.jpg''"
    unfolding 1 by simp
  show ?thesis using 1 2 3 4 5 by simp
qed

text \<open>
  The claim as the specification words it fails for a URL with a query: the path of the URL
  ends in \<^verbatim>\<open>.jpg\<close>, and the file is named "001.2". A URL with no path has no path extension,
  and the file is named "002.com".
\<close>

theorem image_file_names_counterexample:
  "imageNames [''https://cdn.example/m/1.jpg?v=1.2'', ''https://cdn.example.com''] ! 0
     = ''001.2''
   \<and> urlPathExtension ''https://cdn.example/m/1.jpg?v=1.2'' = ''.jpg''
   \<and> imageNames [''https://cdn.example/m/1.jpg?v=1.2'', ''https://cdn.example.com''] ! 0
     \<noteq> Sprintf_03d 1 @ urlPathExtension ''https://cdn.example/m/1.jpg?v=1.2''
   \<and> imageNames [''https://cdn.example/m/1.jpg?v=1.2'', ''https://cdn.example.com''] ! 1
     = ''002.com''
   \<and> urlPathExtension ''https://cdn.example.com'' = []"
  by code_simp

section \<open>Properties of the chapter directory\<close>

text \<open>A text that starts with a digit is padded with zeros on the left to three bytes.\<close>

lemma fmtFloat_03g_unsigned:
  assumes "t \<noteq> []" "isDigit (hd t)"
  shows "fmtFloat_03g t = zeroPad 3 t"
proof -
  from assms(2) have "hd t \<noteq> CHR ''-''" "hd t \<noteq> CHR ''+''" "hd t \<noteq> CHR ''I''" "hd t \<noteq> CHR ''N''"
    by (auto simp: isDigit_def)
  then show ?thesis using assms(1) by (simp add: fmtFloat_03g_def zeroPad_def Let_def)
qed

text \<open>
  \<open>downloadSelectedChapters\<close> hands a scraped chapter to \<open>downloadImages\<close> after it has set
  \<^verbatim>\<open>chapter.ImageURLs\<close>; the title is still the cleaned one.
\<close>

lemma scraped_Title:
  "onChapter pf g manga href nameText titleText = Inr scraped \<Longrightarrow>
   Title (scraped\<lparr>ImageURLs := imageURLs\<rparr>) = getCleanChapterTitle titleText"
  by (auto simp: onChapter_def Let_def split: prod.splits option.splits)

lemma getCleanChapterTitle_legal: "set (getCleanChapterTitle title) \<inter> set illegalChars = {}"
  by (auto simp: getCleanChapterTitle_def)

text \<open>
  The name that the directory and the archive of a chapter share is a plain path element
  when the text of the number is that of an unsigned number and the title is a cleaned one.
\<close>

lemma chapter_name_plain:
  assumes "t \<noteq> []" "isDigit (hd t)" "CHR ''/'' \<notin> set t"
    and "set title \<inter> set illegalChars = {}" and "CHR ''/'' \<notin> set suffix"
  shows "plain (fmtFloat_03g t @ '' '' @ title @ suffix)"
proof -
  let ?nm = "zeroPad 3 t @ '' '' @ title @ suffix"
  have "CHR ''/'' \<in> set illegalChars" by (simp add: illegalChars_def)
  then have s: "CHR ''/'' \<notin> set title" using assms(4) by blast
  have sp: "CHR '' '' \<in> set ?nm" by simp
  have 1: "?nm \<noteq> ''.''"
  proof
    assume e: "?nm = ''.''"
    from sp[unfolded e] show False by simp
  qed
  have 2: "?nm \<noteq> ''..''"
  proof
    assume e: "?nm = ''..''"
    from sp[unfolded e] show False by simp
  qed
  have 3: "?nm \<noteq> []" by simp
  have "set (zeroPad 3 t) \<subseteq> insert CHR ''0'' (set t)" by (auto simp: zeroPad_def)
  then have 4: "CHR ''/'' \<notin> set ?nm" using assms(3,5) s by auto
  show ?thesis
    unfolding fmtFloat_03g_unsigned[OF assms(1,2)] plain_def using 1 2 3 4 by blast
qed

text \<open>The directory of a chapter with a cleaned title, written out.\<close>

lemma dirPath_path:
  assumes "set (Title chapter) \<inter> set illegalChars = {}"
    and "g (Number chapter) \<noteq> []" "isDigit (hd (g (Number chapter)))"
    and "CHR ''/'' \<notin> set (g (Number chapter))"
    and "Clean loc = loc" "loc \<noteq> ''/''" "loc \<noteq> ''.''" "plain (Manga.Title manga)"
  shows "dirPath g loc manga chapter
           = TrimSpace (loc @ ''/'' @ Manga.Title manga @ ''/''
                        @ zeroPad 3 (g (Number chapter)) @ '' '' @ Title chapter)"
proof -
  have "plain (fmtFloat_03g (g (Number chapter)) @ '' '' @ Title chapter @ [])"
    by (rule chapter_name_plain[OF assms(2,3,4,1)]) simp
  then have p: "plain (fmtFloat_03g (g (Number chapter)) @ '' '' @ Title chapter)" by simp
  have "dirPath g loc manga chapter
          = TrimSpace (loc @ ''/'' @ Manga.Title manga @ ''/''
                        @ fmtFloat_03g (g (Number chapter)) @ '' '' @ Title chapter)"
    unfolding dirPath_def Join_three[OF assms(5,6,7,8) p] by (rule refl)
  then show ?thesis unfolding fmtFloat_03g_unsigned[OF assms(2,3)] .
qed




section \<open>Properties of the archive of a chapter\<close>

lemma map_of_filter_key:
  "map_of (filter (\<lambda>(p, _). P p) fs) k = (if P k then map_of fs k else None)"
  by (induction fs) auto

lemma map_of_store: "map_of (store fs k v) p = (if p = k then Some v else map_of fs p)"
  by (simp add: store_def map_of_filter_key)

lemma map_of_os_RemoveAll:
  "map_of (os_RemoveAll fs d) p = (if inside d p then None else map_of fs p)"
  by (simp add: os_RemoveAll_def map_of_filter_key)

lemma visited_store:
  assumes "\<not> inside d k"
  shows "visited (store fs k v) d = visited fs d"
proof -
  have "filter (\<lambda>(p, n). inside d p) (filter (\<lambda>(p, _). p \<noteq> k) fs)
        = filter (\<lambda>(p, n). inside d p) fs"
    using assms by (induction fs) auto
  then show ?thesis using assms by (simp add: visited_def store_def)
qed

lemma walk_no_failure:
  "\<forall>c. \<not> fails c \<Longrightarrow> walk fails nodes z = (z @ filesOf nodes, None)"
proof (induction nodes arbitrary: z)
  case Nil
  then show ?case by (simp add: filesOf_def)
next
  case (Cons a nodes)
  obtain p n where a: "a = (p, n)" by (cases a)
  show ?case
  proof (cases n)
    case Dir
    then show ?thesis using Cons a by (simp add: filesOf_def)
  next
    case (File c)
    then show ?thesis using Cons a by (simp add: filesOf_def addFileToZip_def)
  qed
qed

lemma createCbzArchive_other:
  assumes "createCbzArchive fails d k w = (w', r)" "p \<noteq> k"
  shows "map_of (files w') p = map_of (files w) p"
  using assms
  by (auto simp: createCbzArchive_def Let_def map_of_store split: if_splits prod.splits)

lemma inside_refl: "inside d d"
  by (simp add: inside_def)

lemma createCbzArchive_no_failure:
  assumes "\<forall>c. \<not> fails c" "map_of (files w) d = Some Dir" "map_of (files w) k \<noteq> Some Dir"
    and "\<not> inside d k"
  shows "createCbzArchive fails d k w
         = (\<lparr>files = store (store (files w) k (File (Archive [] False))) k
                      (File (Archive (filesOf (visited (files w) d)) True)),
             stdout = stdout w\<rparr>, None)"
proof -
  have dk: "d \<noteq> k" using assms(4) inside_refl by blast
  have "Walk fails (store (files w) k (File (Archive [] False))) d
        = (filesOf (visited (files w) d), None)"
    using assms(2) dk walk_no_failure[OF assms(1), of _ "[]"]
    by (simp add: Walk_def map_of_store visited_store[OF assms(4)])
  then show ?thesis using assms(1,3) by (simp add: createCbzArchive_def)
qed

text \<open>
  A walk that returns no error has added every file it visited; so has \<open>createCbzArchive\<close>
  when it returns no error, and the archive is closed unless closing the zip writer failed.
\<close>

lemma walk_None:
  "walk fails nodes z = (z', None) \<Longrightarrow> z' = z @ filesOf nodes"
proof (induction nodes arbitrary: z)
  case Nil
  then show ?case by (simp add: filesOf_def)
next
  case (Cons a nodes)
  obtain p n where a: "a = (p, n)" by (cases a)
  show ?case
  proof (cases n)
    case Dir
    with Cons.prems a have "walk fails nodes z = (z', None)"
      by (simp split: if_splits)
    from Cons.IH[OF this] show ?thesis using a Dir by (simp add: filesOf_def)
  next
    case (File c)
    with Cons.prems a have "walk fails nodes (z @ [(Base p, c)]) = (z', None)"
      by (simp add: addFileToZip_def split: if_splits)
    from Cons.IH[OF this] show ?thesis using a File by (simp add: filesOf_def)
  qed
qed

lemma createCbzArchive_None:
  assumes "createCbzArchive fails d k w = (w1, None)" "\<not> inside d k"
  shows "map_of (files w1) k
         = Some (File (Archive (filesOf (visited (files w) d)) (\<not> fails ZipClose)))"
proof -
  define fs1 where "fs1 = store (files w) k (File (Archive [] False))"
  obtain z e where W: "Walk fails fs1 d = (z, e)" by (cases "Walk fails fs1 d")
  from assms(1) have c: "\<not> (fails (CreateFile k) \<or> map_of (files w) k = Some Dir)"
    by (auto simp: createCbzArchive_def)
  with assms(1) W have e: "e = None"
    and w1: "files w1 = store fs1 k (File (Archive z (\<not> fails ZipClose)))"
    by (auto simp: createCbzArchive_def fs1_def Let_def)
  from W e have "walk fails (visited fs1 d) [] = (z, None)"
    by (auto simp: Walk_def split: if_splits)
  from walk_None[OF this] have "z = filesOf (visited (files w) d)"
    by (simp add: fs1_def visited_store[OF assms(2)])
  then show ?thesis by (simp add: w1 map_of_store)
qed

text \<open>
  When closing the zip writer fails, \<open>createCbzArchive\<close> prints the failure and returns no
  error: \<open>downloadImages\<close> removes the directory, and the archive that is left was never
  closed.
\<close>

lemma close_failure_example:
  "snd (archiveChapter closeFails decimalText ''/dl'' exampleManga exampleChapter True
          exampleWorld) = None
   \<and> map_of (files (fst (archiveChapter closeFails decimalText ''/dl'' exampleManga
                            exampleChapter True exampleWorld))) ''/dl/M/005 T.cbz''
     = Some (File (Archive [(''001.jpg'', Bytes ''aa''), (''002.jpg'', Bytes ''bb'')] False))
   \<and> map_of (files (fst (archiveChapter closeFails decimalText ''/dl'' exampleManga
                            exampleChapter True exampleWorld))) ''/dl/M/005 T/001.jpg''
     = None
   \<and> stdout (fst (archiveChapter closeFails decimalText ''/dl'' exampleManga
                      exampleChapter True exampleWorld))
     = [''Error closing zip writer:'']"
  by code_simp

lemma cbzFilename_path:
  assumes "set (Title chapter) \<inter> set illegalChars = {}"
    and "g (Number chapter) \<noteq> []" "isDigit (hd (g (Number chapter)))"
    and "CHR ''/'' \<notin> set (g (Number chapter))"
    and "Clean loc = loc" "loc \<noteq> ''/''" "loc \<noteq> ''.''" "plain (Manga.Title manga)"
  shows "cbzFilename g loc manga chapter
           = loc @ ''/'' @ Manga.Title manga @ ''/''
             @ zeroPad 3 (g (Number chapter)) @ '' '' @ Title chapter @ ''.cbz''"
proof -
  have p: "plain (fmtFloat_03g (g (Number chapter)) @ '' '' @ Title chapter @ ''.cbz'')"
    by (rule chapter_name_plain[OF assms(2,3,4,1)]) simp
  have "cbzFilename g loc manga chapter
          = loc @ ''/'' @ Manga.Title manga @ ''/''
            @ fmtFloat_03g (g (Number chapter)) @ '' '' @ Title chapter @ ''.cbz''"
    unfolding cbzFilename_def by (rule Join_three[OF assms(5,6,7,8) p])
  then show ?thesis unfolding fmtFloat_03g_unsigned[OF assms(2,3)] .
qed

text \<open>
  When trimming leaves the path of the directory as it is, the archive is named as the
  directory with \<^verbatim>\<open>.cbz\<close> added: it lies beside the directory, not inside it.
\<close>

lemma not_inside_suffix: "\<not> inside p (p @ ''.cbz'')"
  by (simp add: inside_def)

lemma archive_beside_directory:
  assumes "set (Title chapter) \<inter> set illegalChars = {}"
    and "g (Number chapter) \<noteq> []" "isDigit (hd (g (Number chapter)))"
    and "CHR ''/'' \<notin> set (g (Number chapter))"
    and "Clean loc = loc" "loc \<noteq> ''/''" "loc \<noteq> ''.''" "plain (Manga.Title manga)"
    and "TrimSpace (loc @ ''/'' @ Manga.Title manga @ ''/''
                    @ zeroPad 3 (g (Number chapter)) @ '' '' @ Title chapter)
         = loc @ ''/'' @ Manga.Title manga @ ''/''
           @ zeroPad 3 (g (Number chapter)) @ '' '' @ Title chapter"
  shows "cbzFilename g loc manga chapter = dirPath g loc manga chapter @ ''.cbz''"
    and "\<not> inside (dirPath g loc manga chapter) (cbzFilename g loc manga chapter)"
proof -
  show 1: "cbzFilename g loc manga chapter = dirPath g loc manga chapter @ ''.cbz''"
    unfolding cbzFilename_path[where g = g, OF assms(1-8)]
      dirPath_path[where g = g, OF assms(1-8)] assms(9) by simp
  show "\<not> inside (dirPath g loc manga chapter) (cbzFilename g loc manga chapter)"
    unfolding 1 by (rule not_inside_suffix)
qed

text \<open>
  Claim C7, as the program has it. In archive mode, with the images downloaded, the archive
  is the join of the download location, the manga title and \<^verbatim>\<open>number title.cbz\<close>, the number
  padded as in the directory. For a scraped chapter with its image URLs set, an unsigned
  number text, a clean location other than \<^verbatim>\<open>/\<close> and \<^verbatim>\<open>.\<close> and a manga title that is a plain
  path element, this is \<^verbatim>\<open>location/manga title/number title.cbz\<close>, in the directory of the
  manga; when moreover trimming leaves the path of the chapter directory as it is, the
  archive is that path with \<^verbatim>\<open>.cbz\<close> added, beside the directory. With an archive that is
  not a path inside the directory of the chapter:
  \<^item> when \<open>createCbzArchive\<close> returns an error, \<open>downloadImages\<close> returns it and every path
    inside the directory of the chapter is as it was;
  \<^item> when no call fails, the directory exists and the archive path is not a directory,
    \<open>downloadImages\<close> returns no error, the archive holds every file of the directory and is
    closed, and nothing inside the directory is left;
  \<^item> when closing the zip writer does not fail, a path inside the directory changes only
    if the archive holds every file of the directory and is closed.

  Nothing makes the creation of the archive atomic: the archive file is created before the
  first image is read, and what was written stays when a later step fails.
\<close>

theorem archive_chapter:
  assumes "dir = dirPath g loc manga chapter" and "cbz = cbzFilename g loc manga chapter"
    and "\<not> inside dir cbz"
  shows "(\<forall>w' e. createCbzArchive fails dir cbz w = (w', Some e) \<longrightarrow>
            archiveChapter fails g loc manga chapter True w = (w', Some e)
            \<and> (\<forall>p. inside dir p \<longrightarrow> map_of (files w') p = map_of (files w) p))
       \<and> ((\<forall>c. \<not> fails c) \<and> map_of (files w) dir = Some Dir
            \<and> map_of (files w) cbz \<noteq> Some Dir \<longrightarrow>
            (\<exists>w'. archiveChapter fails g loc manga chapter True w = (w', None)
                \<and> map_of (files w') cbz
                    = Some (File (Archive (filesOf (visited (files w) dir)) True))
                \<and> (\<forall>p. inside dir p \<longrightarrow> map_of (files w') p = None)))
       \<and> (\<forall>w' r p. \<not> fails ZipClose
            \<and> archiveChapter fails g loc manga chapter True w = (w', r)
            \<and> inside dir p \<and> map_of (files w') p \<noteq> map_of (files w) p \<longrightarrow>
            map_of (files w') cbz
              = Some (File (Archive (filesOf (visited (files w) dir)) True)))
       \<and> (g (Number chapter) \<noteq> [] \<and> isDigit (hd (g (Number chapter))) \<longrightarrow>
            cbz = Join [loc, Manga.Title manga,
                        zeroPad 3 (g (Number chapter)) @ '' '' @ Title chapter @ ''.cbz''])
       \<and> (onChapter pf g manga href nameText titleText = Inr scraped
            \<and> chapter = scraped\<lparr>ImageURLs := imageURLs\<rparr>
            \<and> g (Number chapter) \<noteq> [] \<and> isDigit (hd (g (Number chapter)))
            \<and> CHR ''/'' \<notin> set (g (Number chapter))
            \<and> Clean loc = loc \<and> loc \<noteq> ''/'' \<and> loc \<noteq> ''.'' \<and> plain (Manga.Title manga) \<longrightarrow>
            cbz = loc @ ''/'' @ Manga.Title manga @ ''/''
                  @ zeroPad 3 (g (Number chapter)) @ '' '' @ Title chapter @ ''.cbz''
            \<and> (TrimSpace (loc @ ''/'' @ Manga.Title manga @ ''/''
                           @ zeroPad 3 (g (Number chapter)) @ '' '' @ Title chapter)
                 = loc @ ''/'' @ Manga.Title manga @ ''/''
                   @ zeroPad 3 (g (Number chapter)) @ '' '' @ Title chapter \<longrightarrow>
                 cbz = dir @ ''.cbz''))"
proof -
  have ne: "p \<noteq> cbz" if "inside dir p" for p using that assms(3) by blast
  have A: "archiveChapter fails g loc manga chapter True w
           = (case createCbzArchive fails dir cbz w of
                (w', Some err) \<Rightarrow> (w', Some err)
              | (w', None) \<Rightarrow>
                  if fails (RemoveAllPath dir) then (w', Some (PathError dir))
                  else (w'\<lparr>files := os_RemoveAll (files w') dir\<rparr>, None))"
    unfolding assms(1,2) archiveChapter_def by simp
  have 1: "archiveChapter fails g loc manga chapter True w = (w', Some e)
            \<and> (\<forall>p. inside dir p \<longrightarrow> map_of (files w') p = map_of (files w) p)"
    if h: "createCbzArchive fails dir cbz w = (w', Some e)" for w' e
    using createCbzArchive_other[OF h] ne by (simp add: A h)
  have 2: "\<exists>w'. archiveChapter fails g loc manga chapter True w = (w', None)
                \<and> map_of (files w') cbz
                    = Some (File (Archive (filesOf (visited (files w) dir)) True))
                \<and> (\<forall>p. inside dir p \<longrightarrow> map_of (files w') p = None)"
    if h: "\<forall>c. \<not> fails c" "map_of (files w) dir = Some Dir" "map_of (files w) cbz \<noteq> Some Dir"
    using h(1) assms(3)
    by (simp add: A createCbzArchive_no_failure[OF h assms(3)] map_of_os_RemoveAll map_of_store)
  have 3: "map_of (files w') cbz
              = Some (File (Archive (filesOf (visited (files w) dir)) True))"
    if h: "\<not> fails ZipClose" "archiveChapter fails g loc manga chapter True w = (w', r)"
      "inside dir p" "map_of (files w') p \<noteq> map_of (files w) p" for w' r p
  proof (cases "createCbzArchive fails dir cbz w")
    case (Pair w1 r1)
    note o = createCbzArchive_other[OF Pair ne[OF h(3)]]
    show ?thesis
    proof (cases r1)
      case None
      note k = createCbzArchive_None[OF Pair[unfolded None] assms(3)]
      show ?thesis
      proof (cases "fails (RemoveAllPath dir)")
        case True
        with Pair None h(2) have "w' = w1" by (simp add: A)
        with o h(4) show ?thesis by simp
      next
        case False
        with Pair None h(2) have "files w' = os_RemoveAll (files w1) dir" by (auto simp: A)
        then show ?thesis using k h(1) assms(3) by (simp add: map_of_os_RemoveAll)
      qed
    next
      case (Some e)
      with Pair h(2) have "w' = w1" by (simp add: A)
      with o h(4) show ?thesis by simp
    qed
  qed
  have 4: "cbz = Join [loc, Manga.Title manga,
                        zeroPad 3 (g (Number chapter)) @ '' '' @ Title chapter @ ''.cbz'']"
    if "g (Number chapter) \<noteq> []" "isDigit (hd (g (Number chapter)))"
    unfolding assms(2) cbzFilename_def fmtFloat_03g_unsigned[OF that] by (rule refl)
  have legal: "set (Title chapter) \<inter> set illegalChars = {}"
    if "onChapter pf g manga href nameText titleText = Inr scraped"
      "chapter = scraped\<lparr>ImageURLs := imageURLs\<rparr>"
    unfolding that(2) scraped_Title[OF that(1)] by (rule getCleanChapterTitle_legal)
  have 5: "cbz = loc @ ''/'' @ Manga.Title manga @ ''/''
                  @ zeroPad 3 (g (Number chapter)) @ '' '' @ Title chapter @ ''.cbz''"
    if "onChapter pf g manga href nameText titleText = Inr scraped"
      "chapter = scraped\<lparr>ImageURLs := imageURLs\<rparr>"
      "g (Number chapter) \<noteq> []" "isDigit (hd (g (Number chapter)))"
      "CHR ''/'' \<notin> set (g (Number chapter))"
      "Clean loc = loc" "loc \<noteq> ''/''" "loc \<noteq> ''.''" "plain (Manga.Title manga)"
    unfolding assms(2)
    by (rule cbzFilename_path[where g = g, OF legal[OF that(1,2)] that(3-9)])
  have 6: "cbz = dir @ ''.cbz''"
    if "onChapter pf g manga href nameText titleText = Inr scraped"
      "chapter = scraped\<lparr>ImageURLs := imageURLs\<rparr>"
      "g (Number chapter) \<noteq> []" "isDigit (hd (g (Number chapter)))"
      "CHR ''/'' \<notin> set (g (Number chapter))"
      "Clean loc = loc" "loc \<noteq> ''/''" "loc \<noteq> ''.''" "plain (Manga.Title manga)"
      "TrimSpace (loc @ ''/'' @ Manga.Title manga @ ''/''
                  @ zeroPad 3 (g (Number chapter)) @ '' '' @ Title chapter)
       = loc @ ''/'' @ Manga.Title manga @ ''/''
         @ zeroPad 3 (g (Number chapter)) @ '' '' @ Title chapter"
    unfolding assms(1,2)
    by (rule archive_beside_directory(1)[where g = g, OF legal[OF that(1,2)] that(3-10)])
  show ?thesis using 1 2 3 4 5 6 by blast
qed

text \<open>
  With two images in "/dl/M/005 T": when nothing fails the archive "/dl/M/005 T.cbz" holds
  both and the directory is gone; when the second image cannot be opened the error is
  returned and both images are still in the directory.
\<close>

theorem archive_chapter_witness:
  "(\<exists>w'. archiveChapter nothingFails decimalText ''/dl'' exampleManga exampleChapter True
            exampleWorld = (w', None)
       \<and> map_of (files w') ''/dl/M/005 T.cbz''
           = Some (File (Archive [(''001.jpg'', Bytes ''aa''), (''002.jpg'', Bytes ''bb'')] True))
       \<and> map_of (files w') ''/dl/M/005 T/001.jpg'' = None)
   \<and> (\<exists>w'. archiveChapter secondOpenFails decimalText ''/dl'' exampleManga exampleChapter True
            exampleWorld = (w', Some (PathError ''/dl/M/005 T/002.jpg''))
       \<and> map_of (files w') ''/dl/M/005 T/001.jpg'' = Some (File (Bytes ''aa''))
       \<and> map_of (files w') ''/dl/M/005 T/002.jpg'' = Some (File (Bytes ''bb'')))
   \<and> cbzFilename decimalText ''/dl'' exampleManga exampleChapter = ''/dl/M/005 T.cbz''
   \<and> dirPath decimalText ''/dl'' exampleManga exampleChapter @ ''.cbz'' = ''/dl/M/005 T.cbz''"
proof -
  let ?scraped = "\<lparr>URL = ''/chapters/5'', Number = Fin 5, Title = ''T'', ImageURLs = [],
      Folder = ''M/5 T''\<rparr>"
  let ?urls = "[''https://cdn.example/m/5/a.jpg'', ''https://cdn.example/m/5/b.jpg'']"
  have d: "''/dl/M/005 T'' = dirPath decimalText ''/dl'' exampleManga exampleChapter"
    by code_simp
  have k: "''/dl/M/005 T.cbz'' = cbzFilename decimalText ''/dl'' exampleManga exampleChapter"
    by code_simp
  have n: "\<not> inside ''/dl/M/005 T'' ''/dl/M/005 T.cbz''" by code_simp
  note c1 = archive_chapter[OF d k n, where fails = secondOpenFails and w = exampleWorld,
      THEN conjunct1]
  note c2 = archive_chapter[OF d k n, where fails = nothingFails and w = exampleWorld,
      THEN conjunct2, THEN conjunct1]
  note c3 = archive_chapter[OF d k n, where fails = nothingFails and w = exampleWorld,
      THEN conjunct2, THEN conjunct2, THEN conjunct1]
  note c5 = archive_chapter[OF d k n, where pf = decimalLiteral and href = "''/chapters/5''"
      and nameText = "''Chapter 5''" and titleText = "''T''" and scraped = ?scraped
      and imageURLs = ?urls,
      THEN conjunct2, THEN conjunct2, THEN conjunct2, THEN conjunct2]
  have nf: "\<forall>c. \<not> nothingFails c" by (simp add: nothingFails_def)
  have e: "map_of (files exampleWorld) ''/dl/M/005 T'' = Some Dir"
    "map_of (files exampleWorld) ''/dl/M/005 T.cbz'' \<noteq> Some Dir" by code_simp+
  have v: "filesOf (visited (files exampleWorld) ''/dl/M/005 T'')
           = [(''001.jpg'', Bytes ''aa''), (''002.jpg'', Bytes ''bb'')]" by code_simp
  have i: "inside ''/dl/M/005 T'' ''/dl/M/005 T/001.jpg''"
    "inside ''/dl/M/005 T'' ''/dl/M/005 T/002.jpg''" by code_simp+
  have o: "map_of (files exampleWorld) ''/dl/M/005 T/001.jpg'' = Some (File (Bytes ''aa''))"
    "map_of (files exampleWorld) ''/dl/M/005 T/002.jpg'' = Some (File (Bytes ''bb''))"
    by code_simp+
  from c2 nf e obtain w' where w':
    "archiveChapter nothingFails decimalText ''/dl'' exampleManga exampleChapter True
       exampleWorld = (w', None)"
    "\<forall>p. inside ''/dl/M/005 T'' p \<longrightarrow> map_of (files w') p = None"
    by blast
  have g: "map_of (files w') ''/dl/M/005 T/001.jpg'' = None" using w'(2) i(1) by blast
  then have ch: "map_of (files w') ''/dl/M/005 T/001.jpg''
                 \<noteq> map_of (files exampleWorld) ''/dl/M/005 T/001.jpg''" unfolding o by simp
  have zc: "\<not> nothingFails ZipClose" using nf by blast
  from c3 zc w'(1) i(1) ch
  have "map_of (files w') ''/dl/M/005 T.cbz''
       = Some (File (Archive (filesOf (visited (files exampleWorld) ''/dl/M/005 T'')) True))"
    by blast
  then have 1: "\<exists>w'. archiveChapter nothingFails decimalText ''/dl'' exampleManga exampleChapter
            True exampleWorld = (w', None)
       \<and> map_of (files w') ''/dl/M/005 T.cbz''
           = Some (File (Archive [(''001.jpg'', Bytes ''aa''), (''002.jpg'', Bytes ''bb'')] True))
       \<and> map_of (files w') ''/dl/M/005 T/001.jpg'' = None"
    using w'(1) g unfolding v by blast
  obtain w1 where c: "createCbzArchive secondOpenFails ''/dl/M/005 T'' ''/dl/M/005 T.cbz''
       exampleWorld = (w1, Some (PathError ''/dl/M/005 T/002.jpg''))"
  proof -
    have "snd (createCbzArchive secondOpenFails ''/dl/M/005 T'' ''/dl/M/005 T.cbz''
       exampleWorld) = Some (PathError ''/dl/M/005 T/002.jpg'')" by code_simp
    then show ?thesis using that by (metis prod.collapse)
  qed
  from c1 c have w1:
    "archiveChapter secondOpenFails decimalText ''/dl'' exampleManga exampleChapter True
       exampleWorld = (w1, Some (PathError ''/dl/M/005 T/002.jpg''))"
    "\<forall>p. inside ''/dl/M/005 T'' p \<longrightarrow> map_of (files w1) p = map_of (files exampleWorld) p"
    by blast+
  have 2: "\<exists>w'. archiveChapter secondOpenFails decimalText ''/dl'' exampleManga exampleChapter
            True exampleWorld = (w', Some (PathError ''/dl/M/005 T/002.jpg''))
       \<and> map_of (files w') ''/dl/M/005 T/001.jpg'' = Some (File (Bytes ''aa''))
       \<and> map_of (files w') ''/dl/M/005 T/002.jpg'' = Some (File (Bytes ''bb''))"
    using w1 i o by metis
  have s: "onChapter decimalLiteral decimalText exampleManga ''/chapters/5'' ''Chapter 5'' ''T''
           = Inr ?scraped" by code_simp
  have x: "exampleChapter = ?scraped\<lparr>ImageURLs := ?urls\<rparr>" by (simp add: exampleChapter_def)
  have t: "decimalText (Number exampleChapter) \<noteq> []"
    "isDigit (hd (decimalText (Number exampleChapter)))"
    "CHR ''/'' \<notin> set (decimalText (Number exampleChapter))" by code_simp+
  have l: "Clean ''/dl'' = ''/dl''" "''/dl'' \<noteq> ''/''" "''/dl'' \<noteq> ''.''"
    "plain (Manga.Title exampleManga)" by code_simp+
  have ts: "TrimSpace (''/dl'' @ ''/'' @ Manga.Title exampleManga @ ''/''
                   @ zeroPad 3 (decimalText (Number exampleChapter)) @ '' ''
                   @ Title exampleChapter)
            = ''/dl'' @ ''/'' @ Manga.Title exampleManga @ ''/''
              @ zeroPad 3 (decimalText (Number exampleChapter)) @ '' ''
              @ Title exampleChapter" by code_simp
  from c5 s x t l ts have "''/dl/M/005 T.cbz'' = ''/dl/M/005 T'' @ ''.cbz''" by blast
  then have 3: "cbzFilename decimalText ''/dl'' exampleManga exampleChapter = ''/dl/M/005 T.cbz''"
    "dirPath decimalText ''/dl'' exampleManga exampleChapter @ ''.cbz'' = ''/dl/M/005 T.cbz''"
    unfolding k[symmetric] d[symmetric] by simp_all
  show ?thesis using 1 2 3 by blast
qed

text \<open>
  The claim as the specification words it fails when the second image cannot be opened:
  the operation fails, and the archive exists with the first image alone, although the
  directory holds two.
\<close>

theorem archive_chapter_counterexample:
  "snd (archiveChapter secondOpenFails decimalText ''/dl'' exampleManga exampleChapter True
          exampleWorld) = Some (PathError ''/dl/M/005 T/002.jpg'')
   \<and> map_of (files (fst (archiveChapter secondOpenFails decimalText ''/dl'' exampleManga
                            exampleChapter True exampleWorld))) ''/dl/M/005 T.cbz''
     = Some (File (Archive [(''001.jpg'', Bytes ''aa'')] True))
   \<and> filesOf (visited (files exampleWorld) ''/dl/M/005 T'')
     = [(''001.jpg'', Bytes ''aa''), (''002.jpg'', Bytes ''bb'')]"
  by code_simp

end
